theory Spec2Isabelle
  imports Complex_Main
begin

section \<open>Python strings\<close>

text \<open>
  A Python \<open>str\<close> is a sequence of Unicode code points and \<open>len\<close> counts code points, so a
  string is modelled as a list of code points (natural numbers). The vertical bar is code
  point 124 and the line feed is code point 10.
\<close>

type_synonym pystr = "nat list"

text \<open>
  \<open>str.strip()\<close> without argument removes leading and trailing white space; the code points
  that CPython treats as white space are listed here.
\<close>

definition isspace :: "nat \<Rightarrow> bool" where
  "isspace c \<longleftrightarrow>
     (9 \<le> c \<and> c \<le> 13) \<or> (28 \<le> c \<and> c \<le> 32) \<or> c = 133 \<or> c = 160 \<or> c = 5760 \<or>
     (8192 \<le> c \<and> c \<le> 8202) \<or> c = 8232 \<or> c = 8233 \<or> c = 8239 \<or> c = 8287 \<or> c = 12288"

definition strip :: "pystr \<Rightarrow> pystr" where
  "strip s = rev (dropWhile isspace (rev (dropWhile isspace s)))"

text \<open>\<open>sep.join(xs)\<close>.\<close>

fun join :: "pystr \<Rightarrow> pystr list \<Rightarrow> pystr" where
  "join sep [] = []"
| "join sep [x] = x"
| "join sep (x # y # ys) = x @ sep @ join sep (y # ys)"

text \<open>
  \<open>s.split("|||")\<close>: the string is scanned from the left, every occurrence of three
  consecutive bars that does not overlap an earlier one ends a part. The first argument
  is the part collected so far.
\<close>

fun split_bars :: "pystr \<Rightarrow> pystr \<Rightarrow> pystr list" where
  "split_bars cur [] = [cur]"
| "split_bars cur (a # b # c # s) =
     (if a = 124 \<and> b = 124 \<and> c = 124 then cur # split_bars [] s
      else split_bars (cur @ [a]) (b # c # s))"
| "split_bars cur (a # s) = split_bars (cur @ [a]) s"

definition SEPARATOR :: pystr where
  "SEPARATOR = [10, 124, 124, 124, 10]"

section \<open>Fragments and batches\<close>

text \<open>
  A content block is the dictionary \<open>{'text': str, 'size': number}\<close> built by
  \<open>extract_text_from_pdf\<close>. The size is a number that the translation only copies; it is
  taken as an exact rational.
\<close>

record block =
  b_text :: pystr
  b_size :: rat

text \<open>A batch is the dictionary \<open>{'text': str, 'indices': list}\<close> of lines 85 to 88.\<close>

record batch =
  batch_text :: pystr
  batch_indices :: "nat list"

text \<open>The four variables of the batching loop (lines 66 to 69).\<close>

record batching =
  batches :: "batch list"
  current_batch_text :: "pystr list"
  current_batch_indices :: "nat list"
  current_char_count :: nat

definition batching_init :: batching where
  "batching_init =
     \<lparr>batches = [], current_batch_text = [], current_batch_indices = [],
      current_char_count = 0\<rparr>"

definition commit :: "batching \<Rightarrow> batch list" where
  "commit st =
     batches st @
       [\<lparr>batch_text = join SEPARATOR (current_batch_text st),
         batch_indices = current_batch_indices st\<rparr>]"

text \<open>One iteration of the loop of lines 74 to 96 on the pair \<open>(i, block)\<close>.\<close>

definition batch_step :: "batching \<Rightarrow> nat \<times> block \<Rightarrow> batching" where
  "batch_step st ib =
     (let i = fst ib; txt = strip (b_text (snd ib)) in
      if txt = [] then st
      else if current_char_count st + length txt > 4000 then
        \<lparr>batches = commit st, current_batch_text = [txt], current_batch_indices = [i],
         current_char_count = length txt\<rparr>
      else
        \<lparr>batches = batches st, current_batch_text = current_batch_text st @ [txt],
         current_batch_indices = current_batch_indices st @ [i],
         current_char_count = current_char_count st + (length txt + length SEPARATOR)\<rparr>)"

definition batching_loop :: "block list \<Rightarrow> batching" where
  "batching_loop content_blocks = foldl batch_step batching_init (enumerate 0 content_blocks)"

text \<open>Lines 66 to 103: the loop, then the last batch when the current one is not empty.\<close>

definition build_batches :: "block list \<Rightarrow> batch list" where
  "build_batches content_blocks =
     (let st = batching_loop content_blocks in
      if current_batch_text st \<noteq> [] then commit st else batches st)"

section \<open>The translation adapter\<close>

text \<open>
  \<open>translator.translate(text)\<close> is a call to an external provider: it returns a string or
  raises an exception of class \<open>Exception\<close> (the provider's errors and the network errors all
  are), and its answer may depend on everything that happened before. The adapter is
  therefore a parameter: a function from the text and the provider's state to an outcome
  and the next state. The translator object itself is built at line 62 from the two
  language codes by the constructor, another parameter.
\<close>

datatype 'a outcome = Returns 'a | Raises

type_synonym 's adapter = "pystr \<Rightarrow> 's \<Rightarrow> pystr outcome \<times> 's"

text \<open>
  The record of the adapter calls is kept beside the program's variables: a call on the
  combined text of a batch (with the batch's indices), or a call on the text of the single
  fragment at an index.
\<close>

datatype call = Whole "nat list" pystr | Single nat pystr

fun call_text :: "call \<Rightarrow> pystr" where
  "call_text (Whole idxs t) = t"
| "call_text (Single idx t) = t"

record 's run =
  results :: "block list"
  provider :: 's
  calls :: "call list"

definition translate :: "'s adapter \<Rightarrow> call \<Rightarrow> 's run \<Rightarrow> pystr outcome \<times> 's run" where
  "translate translator c st =
     (case translator (call_text c) (provider st) of
        (r, s) \<Rightarrow> (r, st\<lparr>provider := s, calls := calls st @ [c]\<rparr>))"

section \<open>translate_content\<close>

text \<open>\<open>b.copy()\<close>: a new dictionary with the same two entries.\<close>

definition dict_copy :: "block \<Rightarrow> block" where
  "dict_copy b = \<lparr>b_text = b_text b, b_size = b_size b\<rparr>"

text \<open>
  The statement \<open>results[idx]['text'] = translator.translate(content_blocks[idx]['text'])\<close>
  of lines 139 and 147. Python evaluates the right-hand side first: the index into
  \<open>content_blocks\<close> (IndexError out of range), then the call; then the index into
  \<open>results\<close>, then the store.
\<close>

definition assign_single :: "'s adapter \<Rightarrow> block list \<Rightarrow> nat \<Rightarrow> 's run \<Rightarrow> unit outcome \<times> 's run" where
  "assign_single translator content_blocks idx st =
     (if idx < length content_blocks then
        (case translate translator (Single idx (b_text (content_blocks ! idx))) st of
           (Raises, st1) \<Rightarrow> (Raises, st1)
         | (Returns t, st1) \<Rightarrow>
             if idx < length (results st1) then
               (Returns (), st1\<lparr>results := (results st1)[idx := (results st1 ! idx)\<lparr>b_text := t\<rparr>]\<rparr>)
             else (Raises, st1))
      else (Raises, st))"

text \<open>
  The fall-back loop, written twice in the source (lines 137 to 141 and 145 to 149): each
  member is tried on its own and the bare \<open>except: pass\<close> swallows whatever was raised.
\<close>

definition fallback_step :: "'s adapter \<Rightarrow> block list \<Rightarrow> 's run \<Rightarrow> nat \<Rightarrow> 's run" where
  "fallback_step translator content_blocks st idx =
     (case assign_single translator content_blocks idx st of (r, st1) \<Rightarrow> st1)"

definition fallback :: "'s adapter \<Rightarrow> block list \<Rightarrow> nat list \<Rightarrow> 's run \<Rightarrow> 's run" where
  "fallback translator content_blocks indices st =
     foldl (fallback_step translator content_blocks) st indices"

text \<open>
  The loop of lines 132 and 133 over \<open>zip(indices, parts)\<close>. The stores made before an
  IndexError stay, since \<open>results\<close> is updated in place.
\<close>

fun scatter :: "(nat \<times> pystr) list \<Rightarrow> block list \<Rightarrow> unit outcome \<times> block list" where
  "scatter [] rs = (Returns (), rs)"
| "scatter ((idx, part) # ps) rs =
     (if idx < length rs then scatter ps (rs[idx := (rs ! idx)\<lparr>b_text := part\<rparr>])
      else (Raises, rs))"

text \<open>The body of the outer \<open>try\<close> (lines 112 to 141).\<close>

definition batch_body :: "'s adapter \<Rightarrow> block list \<Rightarrow> batch \<Rightarrow> 's run \<Rightarrow> unit outcome \<times> 's run" where
  "batch_body translator content_blocks b st =
     (let full_text = batch_text b; indices = batch_indices b in
      case translate translator (Whole indices full_text) st of
        (Raises, st1) \<Rightarrow> (Raises, st1)
      | (Returns translated_chunk, st1) \<Rightarrow>
          (let parts = map strip (split_bars [] translated_chunk) in
           if length parts = length indices then
             (case scatter (zip indices parts) (results st1) of
                (r, rs) \<Rightarrow> (r, st1\<lparr>results := rs\<rparr>))
           else (Returns (), fallback translator content_blocks indices st1)))"

text \<open>One iteration of the loop of lines 110 to 149: the \<open>try\<close> and its handler.\<close>

definition process_batch :: "'s adapter \<Rightarrow> block list \<Rightarrow> 's run \<Rightarrow> batch \<Rightarrow> 's run" where
  "process_batch translator content_blocks st b =
     (case batch_body translator content_blocks b st of
        (Returns u, st1) \<Rightarrow> st1
      | (Raises, st1) \<Rightarrow> fallback translator content_blocks (batch_indices b) st1)"

definition run_batches :: "'s adapter \<Rightarrow> block list \<Rightarrow> batch list \<Rightarrow> 's run \<Rightarrow> 's run" where
  "run_batches translator content_blocks bs st =
     foldl (process_batch translator content_blocks) st bs"

definition run_init :: "block list \<Rightarrow> 's \<Rightarrow> 's run" where
  "run_init content_blocks s =
     \<lparr>results = map dict_copy content_blocks, provider = s, calls = []\<rparr>"

text \<open>
  The whole function. Its value in Python is \<open>results\<close>; the model returns the run, whose
  field \<open>results\<close> is that list and whose other fields are the provider's last state and
  the record of the calls made.
\<close>

definition translate_content ::
  "(pystr \<Rightarrow> pystr \<Rightarrow> 's adapter) \<Rightarrow> block list \<Rightarrow> pystr \<Rightarrow> pystr \<Rightarrow> 's \<Rightarrow> 's run" where
  "translate_content GoogleTranslator content_blocks source_lang target_lang s =
     (let translator = GoogleTranslator source_lang target_lang;
          bs = build_batches content_blocks
      in run_batches translator content_blocks bs (run_init content_blocks s))"

section \<open>create_docx\<close>


text \<open>
  What \<open>create_docx\<close> has emitted is kept beside the document: one element for every call
  of \<open>add_heading\<close> or \<open>add_paragraph\<close> that returned, in order.
\<close>

datatype element = Heading nat pystr | Paragraph pystr






section \<open>translate_content on a store of objects\<close>

text \<open>
  The model above passes lists of dictionaries by value. The source works on references:
  \<open>content_blocks\<close> is a reference to a list object whose entries are references to
  dictionary objects, and \<open>results[idx]['text'] = ...\<close> updates a dictionary in place. To
  say what the call does to the objects of the caller, the function is modelled a second
  time on a store: the object at address \<open>a\<close> is the entry \<open>a\<close> of the store, and a new
  object is put at the end.
\<close>

type_synonym addr = nat

datatype obj = Dict block | List "addr list"

type_synonym store = "obj list"

text \<open>
  Reading the object of a reference as a dictionary or as a list. In a store that is well
  formed for the input, \<open>content_blocks\<close> refers to a list of references to dictionaries of
  the store, so the second branch of each reading is not reached.
\<close>

definition dict_at :: "store \<Rightarrow> addr \<Rightarrow> block" where
  "dict_at h a = (case h ! a of Dict b \<Rightarrow> b | List as \<Rightarrow> \<lparr>b_text = [], b_size = 0\<rparr>)"

definition list_at :: "store \<Rightarrow> addr \<Rightarrow> addr list" where
  "list_at h a = (case h ! a of List as \<Rightarrow> as | Dict b \<Rightarrow> [])"

definition alloc :: "obj \<Rightarrow> store \<Rightarrow> addr \<times> store" where
  "alloc ob h = (length h, h @ [ob])"

text \<open>\<open>d['text'] = t\<close> on the dictionary at address \<open>a\<close>.\<close>

definition set_text :: "store \<Rightarrow> addr \<Rightarrow> pystr \<Rightarrow> store" where
  "set_text h a t = h[a := Dict ((dict_at h a)\<lparr>b_text := t\<rparr>)]"

definition input_blocks :: "store \<Rightarrow> addr \<Rightarrow> block list" where
  "input_blocks h content_blocks = map (dict_at h) (list_at h content_blocks)"

definition well_formed :: "store \<Rightarrow> addr \<Rightarrow> bool" where
  "well_formed h content_blocks \<longleftrightarrow>
     content_blocks < length h \<and>
     (case h ! content_blocks of
        List cb \<Rightarrow> list_all (\<lambda>a. a < length h \<and> (case h ! a of Dict b \<Rightarrow> True | List as \<Rightarrow> False)) cb
      | Dict b \<Rightarrow> False)"

text \<open>The store, the provider's state and the record of the calls.\<close>

record 's hrun =
  heap :: store
  hprovider :: 's
  hcalls :: "call list"

definition htranslate :: "'s adapter \<Rightarrow> call \<Rightarrow> 's hrun \<Rightarrow> pystr outcome \<times> 's hrun" where
  "htranslate translator c st =
     (case translator (call_text c) (hprovider st) of
        (r, s) \<Rightarrow> (r, st\<lparr>hprovider := s, hcalls := hcalls st @ [c]\<rparr>))"

text \<open>Lines 139 and 147; \<open>res\<close> is the reference held by the variable \<open>results\<close>.\<close>

definition hassign_single ::
  "'s adapter \<Rightarrow> addr \<Rightarrow> addr \<Rightarrow> nat \<Rightarrow> 's hrun \<Rightarrow> unit outcome \<times> 's hrun" where
  "hassign_single translator content_blocks res idx st =
     (if idx < length (list_at (heap st) content_blocks) then
        (case htranslate translator
                (Single idx (b_text (dict_at (heap st) (list_at (heap st) content_blocks ! idx)))) st of
           (Raises, st1) \<Rightarrow> (Raises, st1)
         | (Returns t, st1) \<Rightarrow>
             if idx < length (list_at (heap st1) res) then
               (Returns (),
                st1\<lparr>heap := set_text (heap st1) (list_at (heap st1) res ! idx) t\<rparr>)
             else (Raises, st1))
      else (Raises, st))"

definition hfallback_step :: "'s adapter \<Rightarrow> addr \<Rightarrow> addr \<Rightarrow> 's hrun \<Rightarrow> nat \<Rightarrow> 's hrun" where
  "hfallback_step translator content_blocks res st idx =
     (case hassign_single translator content_blocks res idx st of (r, st1) \<Rightarrow> st1)"

definition hfallback :: "'s adapter \<Rightarrow> addr \<Rightarrow> addr \<Rightarrow> nat list \<Rightarrow> 's hrun \<Rightarrow> 's hrun" where
  "hfallback translator content_blocks res indices st =
     foldl (hfallback_step translator content_blocks res) st indices"

text \<open>Lines 132 and 133.\<close>

fun hscatter :: "addr \<Rightarrow> (nat \<times> pystr) list \<Rightarrow> store \<Rightarrow> unit outcome \<times> store" where
  "hscatter res [] h = (Returns (), h)"
| "hscatter res ((idx, part) # ps) h =
     (if idx < length (list_at h res)
      then hscatter res ps (set_text h (list_at h res ! idx) part)
      else (Raises, h))"

text \<open>Lines 112 to 141, then the whole \<open>try\<close> statement, then the loop over the batches.\<close>

definition hbatch_body ::
  "'s adapter \<Rightarrow> addr \<Rightarrow> addr \<Rightarrow> batch \<Rightarrow> 's hrun \<Rightarrow> unit outcome \<times> 's hrun" where
  "hbatch_body translator content_blocks res b st =
     (let full_text = batch_text b; indices = batch_indices b in
      case htranslate translator (Whole indices full_text) st of
        (Raises, st1) \<Rightarrow> (Raises, st1)
      | (Returns translated_chunk, st1) \<Rightarrow>
          (let parts = map strip (split_bars [] translated_chunk) in
           if length parts = length indices then
             (case hscatter res (zip indices parts) (heap st1) of
                (r, h) \<Rightarrow> (r, st1\<lparr>heap := h\<rparr>))
           else (Returns (), hfallback translator content_blocks res indices st1)))"

definition hprocess_batch :: "'s adapter \<Rightarrow> addr \<Rightarrow> addr \<Rightarrow> 's hrun \<Rightarrow> batch \<Rightarrow> 's hrun" where
  "hprocess_batch translator content_blocks res st b =
     (case hbatch_body translator content_blocks res b st of
        (Returns u, st1) \<Rightarrow> st1
      | (Raises, st1) \<Rightarrow> hfallback translator content_blocks res (batch_indices b) st1)"

definition hrun_batches ::
  "'s adapter \<Rightarrow> addr \<Rightarrow> addr \<Rightarrow> batch list \<Rightarrow> 's hrun \<Rightarrow> 's hrun" where
  "hrun_batches translator content_blocks res bs st =
     foldl (hprocess_batch translator content_blocks res) st bs"

text \<open>
  Line 107, \<open>[b.copy() for b in content_blocks]\<close>: every \<open>b.copy()\<close> makes a new dictionary
  with the entries of \<open>b\<close>; the references to the new dictionaries are collected in order.
\<close>

fun copy_each :: "addr list \<Rightarrow> store \<Rightarrow> addr list \<times> store" where
  "copy_each [] h = ([], h)"
| "copy_each (a # as) h =
     (case alloc (Dict (dict_copy (dict_at h a))) h of
        (r, h1) \<Rightarrow> (case copy_each as h1 of (rs, h2) \<Rightarrow> (r # rs, h2)))"

text \<open>
  The whole function: the batches are built from the texts read through the input list,
  the copies and the list \<open>results\<close> of their references are new objects, and the
  reference to \<open>results\<close> is returned with the final store.
\<close>

definition htranslate_content ::
  "(pystr \<Rightarrow> pystr \<Rightarrow> 's adapter) \<Rightarrow> addr \<Rightarrow> pystr \<Rightarrow> pystr \<Rightarrow> store \<Rightarrow> 's \<Rightarrow> addr \<times> 's hrun" where
  "htranslate_content GoogleTranslator content_blocks source_lang target_lang h s =
     (let translator = GoogleTranslator source_lang target_lang;
          bs = build_batches (map (dict_at h) (list_at h content_blocks))
      in case copy_each (list_at h content_blocks) h of
           (rs, h1) \<Rightarrow>
             (case alloc (List rs) h1 of
                (res, h2) \<Rightarrow>
                  (res,
                   hrun_batches translator content_blocks res bs
                     \<lparr>heap = h2, hprovider = s, hcalls = []\<rparr>)))"

text \<open>
  The relation between a run on the store and a run on values: the store is the caller's
  store, followed by the dictionaries of \<open>results\<close>, followed by the list \<open>results\<close>.
\<close>

definition sim :: "store \<Rightarrow> nat \<Rightarrow> 's hrun \<Rightarrow> 's run \<Rightarrow> bool" where
  "sim h0 m sh sv \<longleftrightarrow>
     heap sh = h0 @ map Dict (results sv) @ [List [length h0..<length h0 + m]] \<and>
     length (results sv) = m \<and> hprovider sh = provider sv \<and> hcalls sh = calls sv"

section \<open>Sample inputs and adapters\<close>

text \<open>The code points of an ASCII literal.\<close>

definition ascii :: "string \<Rightarrow> pystr" where
  "ascii s = map of_char s"

text \<open>An adapter that puts ASCII letters in upper case and keeps everything else.\<close>

definition upper :: "pystr \<Rightarrow> pystr" where
  "upper s = map (\<lambda>c. if 97 \<le> c \<and> c \<le> 122 then c - 32 else c) s"

definition uppercase_adapter :: "pystr \<Rightarrow> pystr \<Rightarrow> unit adapter" where
  "uppercase_adapter source target txt s = (Returns (upper txt), s)"

text \<open>An adapter that raises on every call.\<close>

definition raising_adapter :: "pystr \<Rightarrow> pystr \<Rightarrow> unit adapter" where
  "raising_adapter source target txt s = (Raises, s)"

text \<open>
  An adapter that loses the separators (every bar becomes a blank) and counts its calls.
\<close>

definition merging_adapter :: "pystr \<Rightarrow> pystr \<Rightarrow> nat adapter" where
  "merging_adapter source target txt s =
     (Returns (map (\<lambda>c. if c = 124 then 32 else c) (upper txt)), Suc s)"

text \<open>The four fragments of the first scenario of the specification.\<close>

definition scenario :: "block list" where
  "scenario =
     [\<lparr>b_text = ascii ''Hello'', b_size = 24\<rparr>, \<lparr>b_text = ascii ''world'', b_size = 12\<rparr>,
      \<lparr>b_text = [], b_size = 12\<rparr>, \<lparr>b_text = ascii ''Test'', b_size = 12\<rparr>]"

text \<open>A fragment of \<open>n\<close> letters \<open>a\<close>.\<close>

definition letters :: "nat \<Rightarrow> block" where
  "letters n = \<lparr>b_text = replicate n 97, b_size = 12\<rparr>"


text \<open>
  A store of the caller: two dictionaries and a list that holds the first one twice.
\<close>

definition caller_store :: store where
  "caller_store =
     [Dict \<lparr>b_text = ascii ''Hello'', b_size = 24\<rparr>, Dict \<lparr>b_text = ascii ''world'', b_size = 12\<rparr>,
      List [0, 1, 0]]"


section \<open>Properties\<close>

subsection \<open>The batching loop\<close>

lemma batch_step_indices:
  "concat (map batch_indices (batches (batch_step st ib))) @ current_batch_indices (batch_step st ib) =
   concat (map batch_indices (batches st)) @ current_batch_indices st @
     (if strip (b_text (snd ib)) = [] then [] else [fst ib])"
  by (simp add: batch_step_def commit_def Let_def)

lemma foldl_batch_step_indices:
  "concat (map batch_indices (batches (foldl batch_step st ps))) @
     current_batch_indices (foldl batch_step st ps) =
   concat (map batch_indices (batches st)) @ current_batch_indices st @
     map fst (filter (\<lambda>p. strip (b_text (snd p)) \<noteq> []) ps)"
proof (induction ps arbitrary: st)
  case Nil
  show ?case by simp
next
  case (Cons p ps)
  show ?case
    using Cons.IH [of "batch_step st p"] batch_step_indices [of st p]
    by (simp del: append_assoc add: append_assoc [symmetric])
qed

lemma batch_step_lengths:
  "length (current_batch_text st) = length (current_batch_indices st) \<Longrightarrow>
   length (current_batch_text (batch_step st ib)) = length (current_batch_indices (batch_step st ib))"
  by (simp add: batch_step_def Let_def)

lemma foldl_batch_step_lengths:
  "length (current_batch_text st) = length (current_batch_indices st) \<Longrightarrow>
   length (current_batch_text (foldl batch_step st ps)) =
   length (current_batch_indices (foldl batch_step st ps))"
  by (induction ps arbitrary: st) (simp_all add: batch_step_lengths)

lemma filter_enumerate:
  "map fst (filter (\<lambda>p. P (snd p)) (enumerate n xs)) =
   filter (\<lambda>i. P (xs ! (i - n))) [n..<n + length xs]"
proof (induction xs rule: rev_induct)
  case Nil
  show ?case by simp
next
  case (snoc x xs)
  have "filter (\<lambda>i. P ((xs @ [x]) ! (i - n))) [n..<n + length xs] =
        filter (\<lambda>i. P (xs ! (i - n))) [n..<n + length xs]"
    by (rule filter_cong) (auto simp: nth_append)
  with snoc show ?case
    by (simp add: enumerate_append_eq nth_append)
qed

lemma build_batches_concat:
  "concat (map batch_indices (build_batches cb)) =
   filter (\<lambda>i. strip (b_text (cb ! i)) \<noteq> []) [0..<length cb]"
proof -
  let ?st = "batching_loop cb"
  have len: "length (current_batch_text ?st) = length (current_batch_indices ?st)"
    unfolding batching_loop_def
    by (rule foldl_batch_step_lengths) (simp add: batching_init_def)
  have "concat (map batch_indices (batches ?st)) @ current_batch_indices ?st =
        map fst (filter (\<lambda>p. strip (b_text (snd p)) \<noteq> []) (enumerate 0 cb))"
    unfolding batching_loop_def foldl_batch_step_indices
    by (simp add: batching_init_def)
  also have "\<dots> = filter (\<lambda>i. strip (b_text (cb ! i)) \<noteq> []) [0..<length cb]"
    using filter_enumerate [of "\<lambda>b. strip (b_text b) \<noteq> []" 0 cb] by simp
  finally have eq: "concat (map batch_indices (batches ?st)) @ current_batch_indices ?st =
      filter (\<lambda>i. strip (b_text (cb ! i)) \<noteq> []) [0..<length cb]" .
  show ?thesis
  proof (cases "current_batch_text ?st = []")
    case True
    with len have "current_batch_indices ?st = []" by simp
    with True eq show ?thesis by (simp add: build_batches_def Let_def)
  next
    case False
    with eq show ?thesis by (simp add: build_batches_def commit_def Let_def)
  qed
qed

subsection \<open>Adapter calls, the fall-back loop and the scatter loop\<close>

lemma translate_results: "results (snd (translate tr c st)) = results st"
  by (simp add: translate_def split: prod.splits)

lemma translate_calls: "calls (snd (translate tr c st)) = calls st @ [c]"
  by (simp add: translate_def split: prod.splits)

lemma translate_fst: "fst (translate tr c st) = fst (tr (call_text c) (provider st))"
  by (simp add: translate_def split: prod.splits)

lemma translate_provider: "provider (snd (translate tr c st)) = snd (tr (call_text c) (provider st))"
  by (simp add: translate_def split: prod.splits)

lemma assign_single_length:
  "length (results (snd (assign_single tr cb idx st))) = length (results st)"
  using translate_results [of tr "Single idx (b_text (cb ! idx))" st]
  by (auto simp: assign_single_def split: prod.splits outcome.splits)

lemma assign_single_size:
  "map b_size (results (snd (assign_single tr cb idx st))) = map b_size (results st)"
  using translate_results [of tr "Single idx (b_text (cb ! idx))" st]
  by (auto simp: assign_single_def map_update list_update_same_conv split: prod.splits outcome.splits)

lemma assign_single_other:
  "j \<noteq> idx \<Longrightarrow> results (snd (assign_single tr cb idx st)) ! j = results st ! j"
  using translate_results [of tr "Single idx (b_text (cb ! idx))" st]
  by (auto simp: assign_single_def split: prod.splits outcome.splits)

lemma assign_single_calls:
  "calls (snd (assign_single tr cb idx st)) =
   calls st @ (if idx < length cb then [Single idx (b_text (cb ! idx))] else [])"
  using translate_calls [of tr "Single idx (b_text (cb ! idx))" st]
  by (auto simp: assign_single_def split: prod.splits outcome.splits)

lemma fallback_Nil: "fallback tr cb [] st = st"
  by (simp add: fallback_def)

lemma fallback_Cons:
  "fallback tr cb (idx # idxs) st = fallback tr cb idxs (snd (assign_single tr cb idx st))"
  by (simp add: fallback_def fallback_step_def split: prod.splits)

lemma fallback_append:
  "fallback tr cb (xs @ ys) st = fallback tr cb ys (fallback tr cb xs st)"
  by (simp add: fallback_def)

lemma fallback_length: "length (results (fallback tr cb idxs st)) = length (results st)"
  by (induction idxs arbitrary: st) (simp_all add: fallback_Nil fallback_Cons assign_single_length)

lemma fallback_size: "map b_size (results (fallback tr cb idxs st)) = map b_size (results st)"
  by (induction idxs arbitrary: st) (simp_all add: fallback_Nil fallback_Cons assign_single_size)

lemma fallback_other:
  "j \<notin> set idxs \<Longrightarrow> results (fallback tr cb idxs st) ! j = results st ! j"
  by (induction idxs arbitrary: st) (simp_all add: fallback_Nil fallback_Cons assign_single_other)

lemma fallback_calls:
  "\<forall>i\<in>set idxs. i < length cb \<Longrightarrow>
   calls (fallback tr cb idxs st) = calls st @ map (\<lambda>i. Single i (b_text (cb ! i))) idxs"
  by (induction idxs arbitrary: st) (simp_all add: fallback_Nil fallback_Cons assign_single_calls)

lemma scatter_length: "length (snd (scatter ps rs)) = length rs"
  by (induction ps rs rule: scatter.induct) simp_all

lemma scatter_size: "map b_size (snd (scatter ps rs)) = map b_size rs"
  by (induction ps rs rule: scatter.induct) (simp_all add: map_update list_update_same_conv)

lemma scatter_other: "j \<notin> fst ` set ps \<Longrightarrow> snd (scatter ps rs) ! j = rs ! j"
  by (induction ps rs rule: scatter.induct) auto

lemma scatter_Returns:
  "\<forall>p\<in>set ps. fst p < length rs \<Longrightarrow> fst (scatter ps rs) = Returns ()"
  by (induction ps rs rule: scatter.induct) auto

lemma scatter_nth:
  "distinct (map fst ps) \<Longrightarrow> \<forall>p\<in>set ps. fst p < length rs \<Longrightarrow> k < length ps \<Longrightarrow>
   snd (scatter ps rs) ! fst (ps ! k) = (rs ! fst (ps ! k))\<lparr>b_text := snd (ps ! k)\<rparr>"
proof (induction ps rs arbitrary: k rule: scatter.induct)
  case (1 rs)
  then show ?case by simp
next
  case (2 idx part ps rs)
  show ?case
  proof (cases k)
    case 0
    have "idx \<notin> fst ` set ps" using "2.prems"(1) by auto
    then have "snd (scatter ps (rs[idx := (rs ! idx)\<lparr>b_text := part\<rparr>])) ! idx =
               (rs[idx := (rs ! idx)\<lparr>b_text := part\<rparr>]) ! idx"
      by (rule scatter_other)
    with 0 "2.prems"(2) show ?thesis by simp
  next
    case (Suc m)
    have ne: "fst (ps ! m) \<noteq> idx"
    proof -
      have "m < length ps" using "2.prems"(3) Suc by simp
      then have "fst (ps ! m) \<in> fst ` set ps" by (simp add: image_iff) (metis nth_mem)
      moreover have "idx \<notin> fst ` set ps" using "2.prems"(1) by auto
      ultimately show ?thesis by auto
    qed
    have "snd (scatter ps (rs[idx := (rs ! idx)\<lparr>b_text := part\<rparr>])) ! fst (ps ! m) =
          (rs[idx := (rs ! idx)\<lparr>b_text := part\<rparr>] ! fst (ps ! m))\<lparr>b_text := snd (ps ! m)\<rparr>"
      using "2.prems" Suc by (intro "2.IH") auto
    with Suc ne "2.prems"(2) show ?thesis by simp
  qed
qed

subsection \<open>One batch\<close>

lemma process_batch_slow:
  assumes "fst (tr (batch_text b) (provider st)) = Raises \<or>
           (\<exists>chunk. fst (tr (batch_text b) (provider st)) = Returns chunk \<and>
              length (map strip (split_bars [] chunk)) \<noteq> length (batch_indices b))"
  shows "process_batch tr cb st b =
         fallback tr cb (batch_indices b)
           (snd (translate tr (Whole (batch_indices b) (batch_text b)) st))"
  using assms translate_fst [of tr "Whole (batch_indices b) (batch_text b)" st]
  by (auto simp: process_batch_def batch_body_def Let_def split: prod.splits outcome.splits)

lemma process_batch_fast:
  assumes "fst (tr (batch_text b) (provider st)) = Returns chunk"
    and "length (map strip (split_bars [] chunk)) = length (batch_indices b)"
    and "\<forall>i\<in>set (batch_indices b). i < length (results st)"
  shows "process_batch tr cb st b =
         (snd (translate tr (Whole (batch_indices b) (batch_text b)) st))
           \<lparr>results := snd (scatter (zip (batch_indices b) (map strip (split_bars [] chunk)))
                               (results st))\<rparr>"
proof -
  let ?ps = "zip (batch_indices b) (map strip (split_bars [] chunk))"
  have "\<forall>p\<in>set ?ps. fst p < length (results st)"
    using assms(3) by (auto dest: set_zip_leftD)
  then have "fst (scatter ?ps (results st)) = Returns ()"
    by (rule scatter_Returns)
  then show ?thesis
    using assms(1,2) translate_fst [of tr "Whole (batch_indices b) (batch_text b)" st]
      translate_results [of tr "Whole (batch_indices b) (batch_text b)" st]
    by (auto simp: process_batch_def batch_body_def Let_def split: prod.splits outcome.splits)
qed

lemma translate_eq:
  "translate tr c st = (r, st1) \<Longrightarrow> results st1 = results st \<and> calls st1 = calls st @ [c]"
  by (auto simp: translate_def split: prod.splits)

lemma scatter_eq:
  "scatter ps rs = (r, rs1) \<Longrightarrow> length rs1 = length rs \<and> map b_size rs1 = map b_size rs"
  using scatter_length [of ps rs] scatter_size [of ps rs] by simp

lemma scatter_eq_other:
  "scatter (zip idxs parts) rs = (r, rs1) \<Longrightarrow> j \<notin> set idxs \<Longrightarrow> rs1 ! j = rs ! j"
proof -
  assume a: "scatter (zip idxs parts) rs = (r, rs1)" and j: "j \<notin> set idxs"
  have "j \<notin> fst ` set (zip idxs parts)"
    using j by (auto dest: set_zip_leftD)
  then have "snd (scatter (zip idxs parts) rs) ! j = rs ! j"
    by (rule scatter_other)
  with a show ?thesis by simp
qed

lemma process_batch_length:
  "length (results (process_batch tr cb st b)) = length (results st)"
  by (auto simp: process_batch_def batch_body_def Let_def fallback_length
      split: prod.splits outcome.splits dest!: translate_eq scatter_eq)

lemma process_batch_size:
  "map b_size (results (process_batch tr cb st b)) = map b_size (results st)"
  by (auto simp: process_batch_def batch_body_def Let_def fallback_size
      split: prod.splits outcome.splits dest!: translate_eq scatter_eq)

lemma process_batch_other:
  "j \<notin> set (batch_indices b) \<Longrightarrow> results (process_batch tr cb st b) ! j = results st ! j"
  by (auto simp: process_batch_def batch_body_def Let_def fallback_other
      split: prod.splits outcome.splits dest!: translate_eq dest: scatter_eq_other)

lemma fallback_calls_sub:
  "\<exists>xs. calls (fallback tr cb idxs st) = calls st @ xs \<and>
        set xs \<subseteq> (\<lambda>i. Single i (b_text (cb ! i))) ` set idxs"
proof (induction idxs arbitrary: st)
  case Nil
  show ?case by (simp add: fallback_Nil)
next
  case (Cons idx idxs)
  from Cons.IH [of "snd (assign_single tr cb idx st)"]
  obtain xs where xs: "calls (fallback tr cb idxs (snd (assign_single tr cb idx st))) =
      calls (snd (assign_single tr cb idx st)) @ xs"
      "set xs \<subseteq> (\<lambda>i. Single i (b_text (cb ! i))) ` set idxs"
    by blast
  show ?case
  proof (intro exI conjI)
    show "calls (fallback tr cb (idx # idxs) st) =
          calls st @ ((if idx < length cb then [Single idx (b_text (cb ! idx))] else []) @ xs)"
      using xs(1) by (simp add: fallback_Cons assign_single_calls)
    show "set ((if idx < length cb then [Single idx (b_text (cb ! idx))] else []) @ xs)
          \<subseteq> (\<lambda>i. Single i (b_text (cb ! i))) ` set (idx # idxs)"
      using xs(2) by auto
  qed
qed

lemma process_batch_calls:
  "\<exists>xs. calls (process_batch tr cb st b) =
          calls st @ Whole (batch_indices b) (batch_text b) # xs \<and>
        set xs \<subseteq> (\<lambda>i. Single i (b_text (cb ! i))) ` set (batch_indices b)"
proof -
  let ?c = "Whole (batch_indices b) (batch_text b)"
  obtain r st1 where t: "translate tr ?c st = (r, st1)" by (cases "translate tr ?c st")
  then have c1: "calls st1 = calls st @ [?c]" by (auto dest: translate_eq)
  have fb: "\<exists>xs. calls (fallback tr cb (batch_indices b) s') = calls st @ ?c # xs \<and>
        set xs \<subseteq> (\<lambda>i. Single i (b_text (cb ! i))) ` set (batch_indices b)"
    if "calls s' = calls st @ [?c]" for s' :: "'a run"
    using fallback_calls_sub [of tr cb "batch_indices b" s'] that by auto
  show ?thesis
    using t c1 fb [of st1] fb
    by (auto simp: process_batch_def batch_body_def Let_def
        split: prod.splits outcome.splits)
qed

subsection \<open>All batches\<close>

lemma run_batches_Nil: "run_batches tr cb [] st = st"
  by (simp add: run_batches_def)

lemma run_batches_Cons:
  "run_batches tr cb (b # bs) st = run_batches tr cb bs (process_batch tr cb st b)"
  by (simp add: run_batches_def)

lemma run_batches_append:
  "run_batches tr cb (xs @ ys) st = run_batches tr cb ys (run_batches tr cb xs st)"
  by (simp add: run_batches_def)

lemma run_batches_length: "length (results (run_batches tr cb bs st)) = length (results st)"
  by (induction bs arbitrary: st)
    (simp_all add: run_batches_Nil run_batches_Cons process_batch_length)

lemma run_batches_size: "map b_size (results (run_batches tr cb bs st)) = map b_size (results st)"
  by (induction bs arbitrary: st)
    (simp_all add: run_batches_Nil run_batches_Cons process_batch_size)

lemma run_batches_other:
  "\<forall>b\<in>set bs. j \<notin> set (batch_indices b) \<Longrightarrow>
   results (run_batches tr cb bs st) ! j = results st ! j"
  by (induction bs arbitrary: st)
    (simp_all add: run_batches_Nil run_batches_Cons process_batch_other)

lemma run_batches_calls:
  "\<exists>xs. calls (run_batches tr cb bs st) = calls st @ xs \<and>
     (\<forall>c\<in>set xs. \<exists>b\<in>set bs. c = Whole (batch_indices b) (batch_text b) \<or>
        (\<exists>i\<in>set (batch_indices b). c = Single i (b_text (cb ! i))))"
proof (induction bs arbitrary: st)
  case Nil
  show ?case by (simp add: run_batches_Nil)
next
  case (Cons b bs)
  obtain xs where xs: "calls (process_batch tr cb st b) =
      calls st @ Whole (batch_indices b) (batch_text b) # xs"
    "set xs \<subseteq> (\<lambda>i. Single i (b_text (cb ! i))) ` set (batch_indices b)"
    using process_batch_calls [of tr cb st b] by blast
  obtain ys where ys: "calls (run_batches tr cb bs (process_batch tr cb st b)) =
      calls (process_batch tr cb st b) @ ys"
    "\<forall>c\<in>set ys. \<exists>b\<in>set bs. c = Whole (batch_indices b) (batch_text b) \<or>
        (\<exists>i\<in>set (batch_indices b). c = Single i (b_text (cb ! i)))"
    using Cons.IH [of "process_batch tr cb st b"] by blast
  show ?case
  proof (intro exI conjI)
    show "calls (run_batches tr cb (b # bs) st) =
          calls st @ (Whole (batch_indices b) (batch_text b) # xs @ ys)"
      using xs(1) ys(1) by (simp add: run_batches_Cons)
    show "\<forall>c\<in>set (Whole (batch_indices b) (batch_text b) # xs @ ys).
       \<exists>b'\<in>set (b # bs). c = Whole (batch_indices b') (batch_text b') \<or>
        (\<exists>i\<in>set (batch_indices b'). c = Single i (b_text (cb ! i)))"
      using xs(2) ys(2) by auto
  qed
qed

lemma dict_copy_id: "map dict_copy cb = cb"
  by (simp add: dict_copy_def map_idI)

lemma results_run_init: "results (run_init cb s) = cb"
  by (simp add: run_init_def dict_copy_id)

lemma build_batches_member:
  assumes "b \<in> set (build_batches cb)" and "i \<in> set (batch_indices b)"
  shows "i < length cb \<and> strip (b_text (cb ! i)) \<noteq> []"
proof -
  have "i \<in> set (concat (map batch_indices (build_batches cb)))"
    using assms by auto
  then show ?thesis
    unfolding build_batches_concat by simp
qed

lemma sorted_wrt_concat_member:
  "sorted_wrt P (concat xss) \<Longrightarrow> xs \<in> set xss \<Longrightarrow> sorted_wrt P xs"
  by (induction xss) (auto simp: sorted_wrt_append)

lemma build_batches_sorted:
  assumes "b \<in> set (build_batches cb)"
  shows "sorted_wrt (<) (batch_indices b)"
proof -
  have "sorted_wrt (<) (filter (\<lambda>i. strip (b_text (cb ! i)) \<noteq> []) [0..<length cb])"
    by (rule sorted_wrt_filter) (simp add: sorted_wrt_upt)
  then have "sorted_wrt (<) (concat (map batch_indices (build_batches cb)))"
    by (simp add: build_batches_concat)
  then show ?thesis
    using assms by (auto intro: sorted_wrt_concat_member)
qed

lemma build_batches_distinct:
  "distinct (concat (map batch_indices (build_batches cb)))"
  by (simp add: build_batches_concat)

text \<open>
  Claim C5. Read in batch order, the member indices of the batches are exactly the indices
  of the fragments whose trimmed text is not empty, in increasing order and each once; the
  indices of every single batch are strictly increasing, distinct and positions of the
  input list.
\<close>
theorem batches_partition_nonempty_indices:
  "concat (map batch_indices (build_batches cb)) =
     filter (\<lambda>i. strip (b_text (cb ! i)) \<noteq> []) [0..<length cb] \<and>
   distinct (concat (map batch_indices (build_batches cb))) \<and>
   (\<forall>b\<in>set (build_batches cb).
      sorted_wrt (<) (batch_indices b) \<and> distinct (batch_indices b) \<and>
      (\<forall>i\<in>set (batch_indices b). i < length cb))"
proof (intro conjI ballI)
  show "concat (map batch_indices (build_batches cb)) =
     filter (\<lambda>i. strip (b_text (cb ! i)) \<noteq> []) [0..<length cb]"
    by (rule build_batches_concat)
  show "distinct (concat (map batch_indices (build_batches cb)))"
    by (rule build_batches_distinct)
next
  fix b assume b: "b \<in> set (build_batches cb)"
  show "sorted_wrt (<) (batch_indices b)" using b by (rule build_batches_sorted)
  show "distinct (batch_indices b)"
    using build_batches_distinct [of cb] b by (auto simp: distinct_concat_iff)
  fix i assume "i \<in> set (batch_indices b)"
  with b show "i < length cb" by (simp add: build_batches_member)
qed

text \<open>
  Claim C1. Whatever the adapter does, the result has as many elements as the input, and
  the element at every position is the input element at that position with at most its
  text replaced.
\<close>
theorem translate_content_order:
  "length (results (translate_content G cb src tgt s)) = length cb \<and>
   (\<forall>i<length cb. \<exists>t. results (translate_content G cb src tgt s) ! i = (cb ! i)\<lparr>b_text := t\<rparr>)"
proof (intro conjI allI impI)
  let ?R = "translate_content G cb src tgt s"
  show len: "length (results ?R) = length cb"
    by (simp add: translate_content_def Let_def run_batches_length results_run_init)
  fix i assume i: "i < length cb"
  have "map b_size (results ?R) = map b_size cb"
    by (simp add: translate_content_def Let_def run_batches_size results_run_init)
  then have "map b_size (results ?R) ! i = map b_size cb ! i" by simp
  with i len have "b_size (results ?R ! i) = b_size (cb ! i)" by simp
  then have "results ?R ! i = (cb ! i)\<lparr>b_text := b_text (results ?R ! i)\<rparr>"
    by (cases "results ?R ! i"; cases "cb ! i") simp
  then show "\<exists>t. results ?R ! i = (cb ! i)\<lparr>b_text := t\<rparr>" ..
qed

lemmas eval_defs = build_batches_def batching_loop_def batch_step_def batching_init_def commit_def
      scenario_def ascii_def strip_def isspace_def SEPARATOR_def Let_def
      translate_content_def run_batches_def run_init_def process_batch_def batch_body_def
      translate_def fallback_def fallback_step_def assign_single_def dict_copy_def
      uppercase_adapter_def upper_def raising_adapter_def merging_adapter_def

subsection \<open>Fragments without text\<close>

lemma foldl_batch_step_skip:
  "\<forall>p\<in>set ps. strip (b_text (snd p)) = [] \<Longrightarrow> foldl batch_step st ps = st"
  by (induction ps arbitrary: st) (simp_all add: batch_step_def)

lemma build_batches_all_empty:
  assumes "\<forall>b\<in>set cb. strip (b_text b) = []"
  shows "build_batches cb = []"
proof -
  have "\<forall>p\<in>set (enumerate 0 cb). strip (b_text (snd p)) = []"
    using assms by (auto simp: in_set_enumerate_eq)
  then have "batching_loop cb = batching_init"
    unfolding batching_loop_def by (rule foldl_batch_step_skip)
  then show ?thesis
    by (simp add: build_batches_def batching_init_def)
qed

text \<open>
  Claim C9. When the trimmed text of every fragment is empty (the empty list included),
  no batch is built, the adapter is not called, and the result equals the input.
\<close>
theorem all_empty_passthrough:
  assumes "\<forall>b\<in>set cb. strip (b_text b) = []"
  shows "build_batches cb = [] \<and>
         calls (translate_content G cb src tgt s) = [] \<and>
         results (translate_content G cb src tgt s) = cb"
  using build_batches_all_empty [OF assms]
  by (simp add: translate_content_def run_batches_Nil run_init_def dict_copy_id)

theorem all_empty_passthrough_witness:
  "strip [32, 9] = [] \<and> strip [] = [] \<and>
   build_batches [\<lparr>b_text = [32, 9], b_size = 12\<rparr>, \<lparr>b_text = [], b_size = 10\<rparr>] = [] \<and>
   calls (translate_content uppercase_adapter
            [\<lparr>b_text = [32, 9], b_size = 12\<rparr>, \<lparr>b_text = [], b_size = 10\<rparr>]
            (ascii ''auto'') (ascii ''id'') ()) = [] \<and>
   results (translate_content uppercase_adapter
            [\<lparr>b_text = [32, 9], b_size = 12\<rparr>, \<lparr>b_text = [], b_size = 10\<rparr>]
            (ascii ''auto'') (ascii ''id'') ()) =
     [\<lparr>b_text = [32, 9], b_size = 12\<rparr>, \<lparr>b_text = [], b_size = 10\<rparr>]"
proof -
  have s1: "strip [32, 9] = []" and s2: "strip [] = []"
    by (simp_all add: strip_def isspace_def)
  then have h: "\<forall>b\<in>set [\<lparr>b_text = [32, 9], b_size = 12\<rparr>, \<lparr>b_text = [], b_size = 10\<rparr>].
      strip (b_text b) = []"
    by simp
  show ?thesis
    using s1 s2 all_empty_passthrough [OF h, of uppercase_adapter "ascii ''auto''" "ascii ''id''" "()"]
    by blast
qed

lemma batch_step_text:
  assumes p: "snd p = cb ! fst p"
    and cur: "current_batch_text st =
              map (\<lambda>j. strip (b_text (cb ! j))) (current_batch_indices st)"
    and old: "\<forall>b\<in>set (batches st).
              batch_text b = join SEPARATOR (map (\<lambda>j. strip (b_text (cb ! j))) (batch_indices b))"
  shows "current_batch_text (batch_step st p) =
           map (\<lambda>j. strip (b_text (cb ! j))) (current_batch_indices (batch_step st p)) \<and>
         (\<forall>b\<in>set (batches (batch_step st p)).
            batch_text b = join SEPARATOR (map (\<lambda>j. strip (b_text (cb ! j))) (batch_indices b)))"
  using assms by (simp add: batch_step_def commit_def Let_def)

lemma foldl_batch_step_text:
  assumes "\<forall>p\<in>set ps. snd p = cb ! fst p"
    and "current_batch_text st =
         map (\<lambda>j. strip (b_text (cb ! j))) (current_batch_indices st)"
    and "\<forall>b\<in>set (batches st).
         batch_text b = join SEPARATOR (map (\<lambda>j. strip (b_text (cb ! j))) (batch_indices b))"
  shows "current_batch_text (foldl batch_step st ps) =
           map (\<lambda>j. strip (b_text (cb ! j))) (current_batch_indices (foldl batch_step st ps)) \<and>
         (\<forall>b\<in>set (batches (foldl batch_step st ps)).
            batch_text b = join SEPARATOR (map (\<lambda>j. strip (b_text (cb ! j))) (batch_indices b)))"
  using assms
proof (induction ps arbitrary: st)
  case Nil
  then show ?case by simp
next
  case (Cons p ps)
  have p: "snd p = cb ! fst p" using Cons.prems(1) by simp
  from batch_step_text [OF p Cons.prems(2,3)] Cons.prems(1)
  show ?case
    unfolding foldl_Cons by (intro Cons.IH) simp_all
qed

text \<open>
  The text of a batch is the trimmed texts of its members, in order, joined by the
  separator: nothing else is sent to the adapter with a batch.
\<close>

lemma build_batches_text:
  assumes "b \<in> set (build_batches cb)"
  shows "batch_text b = join SEPARATOR (map (\<lambda>j. strip (b_text (cb ! j))) (batch_indices b))"
proof -
  let ?st = "batching_loop cb"
  have en: "\<forall>p\<in>set (enumerate 0 cb). snd p = cb ! fst p"
    by (simp add: in_set_enumerate_eq)
  have inv: "current_batch_text ?st =
           map (\<lambda>j. strip (b_text (cb ! j))) (current_batch_indices ?st) \<and>
         (\<forall>b\<in>set (batches ?st).
            batch_text b = join SEPARATOR (map (\<lambda>j. strip (b_text (cb ! j))) (batch_indices b)))"
    unfolding batching_loop_def
    by (rule foldl_batch_step_text [OF en]) (simp_all add: batching_init_def)
  from assms inv show ?thesis
    by (auto simp: build_batches_def commit_def Let_def split: if_splits)
qed

text \<open>
  Claim C6. A fragment whose text is empty or white space only is a member of no batch,
  and the text of every batch is the join of the trimmed texts of its members, so the
  fragment contributes nothing to it. Every adapter call of the run is a call on the joined
  trimmed texts of fragments other than this one, or a call on the stored text of another
  fragment, one whose trimmed text is not empty: the adapter is never called on this
  fragment. The result holds the fragment unchanged.
\<close>

theorem empty_fragment_passthrough:
  assumes "i < length cb" and "strip (b_text (cb ! i)) = []"
  shows "(\<forall>b\<in>set (build_batches cb).
            i \<notin> set (batch_indices b) \<and>
            batch_text b = join SEPARATOR (map (\<lambda>j. strip (b_text (cb ! j))) (batch_indices b))) \<and>
         (\<forall>c\<in>set (calls (translate_content G cb src tgt s)).
            case c of
              Whole idxs t \<Rightarrow>
                i \<notin> set idxs \<and> t = join SEPARATOR (map (\<lambda>j. strip (b_text (cb ! j))) idxs)
            | Single j t \<Rightarrow>
                j \<noteq> i \<and> j < length cb \<and> strip (b_text (cb ! j)) \<noteq> [] \<and> t = b_text (cb ! j)) \<and>
         results (translate_content G cb src tgt s) ! i = cb ! i"
proof (intro conjI ballI)
  show notin: "i \<notin> set (batch_indices b)" if "b \<in> set (build_batches cb)" for b
    using build_batches_member [OF that, of i] assms(2) by blast
  then show "results (translate_content G cb src tgt s) ! i = cb ! i"
    by (simp add: translate_content_def Let_def run_batches_other results_run_init)
  show "batch_text b = join SEPARATOR (map (\<lambda>j. strip (b_text (cb ! j))) (batch_indices b))"
    if "b \<in> set (build_batches cb)" for b
    using that by (rule build_batches_text)
  fix c assume c: "c \<in> set (calls (translate_content G cb src tgt s))"
  obtain xs where xs: "calls (translate_content G cb src tgt s) = calls (run_init cb s) @ xs"
    "\<forall>c\<in>set xs. \<exists>b\<in>set (build_batches cb). c = Whole (batch_indices b) (batch_text b) \<or>
        (\<exists>j\<in>set (batch_indices b). c = Single j (b_text (cb ! j)))"
    using run_batches_calls [of "G src tgt" cb "build_batches cb" "run_init cb s"]
    by (auto simp: translate_content_def Let_def)
  from c xs(1) have "c \<in> set xs" by (simp add: run_init_def)
  with xs(2) obtain b where b: "b \<in> set (build_batches cb)"
    "c = Whole (batch_indices b) (batch_text b) \<or>
        (\<exists>j\<in>set (batch_indices b). c = Single j (b_text (cb ! j)))" by blast
  from b(2) show "case c of
              Whole idxs t \<Rightarrow>
                i \<notin> set idxs \<and> t = join SEPARATOR (map (\<lambda>j. strip (b_text (cb ! j))) idxs)
            | Single j t \<Rightarrow>
                j \<noteq> i \<and> j < length cb \<and> strip (b_text (cb ! j)) \<noteq> [] \<and> t = b_text (cb ! j)"
  proof
    assume "c = Whole (batch_indices b) (batch_text b)"
    with notin [OF b(1)] build_batches_text [OF b(1)] show ?thesis by simp
  next
    assume "\<exists>j\<in>set (batch_indices b). c = Single j (b_text (cb ! j))"
    then obtain j where j: "j \<in> set (batch_indices b)" "c = Single j (b_text (cb ! j))"
      by blast
    from build_batches_member [OF b(1) j(1)] notin [OF b(1)] j show ?thesis by auto
  qed
qed

theorem empty_fragment_passthrough_witness:
  "2 < length scenario \<and> strip (b_text (scenario ! 2)) = [] \<and>
   2 \<notin> set (concat (map batch_indices (build_batches scenario))) \<and>
   Single 2 [] \<notin> set (calls (translate_content raising_adapter scenario (ascii ''auto'') (ascii ''id'') ())) \<and>
   calls (translate_content raising_adapter scenario (ascii ''auto'') (ascii ''id'') ()) =
     [Whole [0, 1, 3] (ascii ''Hello'' @ SEPARATOR @ ascii ''world'' @ SEPARATOR @ ascii ''Test''),
      Single 0 (ascii ''Hello''), Single 1 (ascii ''world''), Single 3 (ascii ''Test'')] \<and>
   results (translate_content raising_adapter scenario (ascii ''auto'') (ascii ''id'') ()) ! 2 =
     \<lparr>b_text = [], b_size = 12\<rparr>"
proof -
  have h1: "2 < length scenario" by (simp add: scenario_def)
  have h2: "strip (b_text (scenario ! 2)) = []" by (simp add: scenario_def strip_def)
  have v: "scenario ! 2 = \<lparr>b_text = [], b_size = 12\<rparr>" by (simp add: scenario_def)
  note t = empty_fragment_passthrough [OF h1 h2, of raising_adapter "ascii ''auto''" "ascii ''id''" "()"]
  from t have a: "2 \<notin> set (concat (map batch_indices (build_batches scenario)))"
    by auto
  from t have b: "Single 2 [] \<notin> set (calls (translate_content raising_adapter scenario (ascii ''auto'') (ascii ''id'') ()))"
    by (auto split: call.splits)
  have e: "calls (translate_content raising_adapter scenario (ascii ''auto'') (ascii ''id'') ()) =
     [Whole [0, 1, 3] (ascii ''Hello'' @ SEPARATOR @ ascii ''world'' @ SEPARATOR @ ascii ''Test''),
      Single 0 (ascii ''Hello''), Single 1 (ascii ''world''), Single 3 (ascii ''Test'')]"
    by (simp add: eval_defs)
  from t have c: "results (translate_content raising_adapter scenario (ascii ''auto'') (ascii ''id'') ()) ! 2 =
     \<lparr>b_text = [], b_size = 12\<rparr>"
    by (simp add: v)
  from h1 h2 a b c e show ?thesis by blast
qed

theorem translate_content_order_witness:
  "length (results (translate_content raising_adapter scenario (ascii ''auto'') (ascii ''id'') ())) = 4 \<and>
   0 < length scenario \<and>
   (\<exists>t. results (translate_content raising_adapter scenario (ascii ''auto'') (ascii ''id'') ()) ! 0 =
      \<lparr>b_text = t, b_size = 24\<rparr>)"
proof -
  have len: "length scenario = 4" and pos: "0 < length scenario"
    and hd: "scenario ! 0 = \<lparr>b_text = ascii ''Hello'', b_size = 24\<rparr>"
    by (simp_all add: scenario_def)
  from translate_content_order [of raising_adapter scenario "ascii ''auto''" "ascii ''id''" "()"]
  have l: "length (results (translate_content raising_adapter scenario (ascii ''auto'') (ascii ''id'') ())) = 4"
    and "\<exists>t. results (translate_content raising_adapter scenario (ascii ''auto'') (ascii ''id'') ()) ! 0 =
      (scenario ! 0)\<lparr>b_text := t\<rparr>"
    using pos len by auto
  then show ?thesis using pos l by (simp add: hd)
qed

theorem batches_partition_nonempty_indices_witness:
  "build_batches scenario =
     [\<lparr>batch_text = ascii ''Hello'' @ SEPARATOR @ ascii ''world'' @ SEPARATOR @ ascii ''Test'',
       batch_indices = [0, 1, 3]\<rparr>] \<and>
   filter (\<lambda>i. strip (b_text (scenario ! i)) \<noteq> []) [0..<length scenario] = [0, 1, 3] \<and>
   sorted_wrt (<) [0, 1, 3::nat] \<and> distinct [0, 1, 3::nat] \<and> 3 < length scenario"
proof -
  have bb: "build_batches scenario =
     [\<lparr>batch_text = ascii ''Hello'' @ SEPARATOR @ ascii ''world'' @ SEPARATOR @ ascii ''Test'',
       batch_indices = [0, 1, 3]\<rparr>]"
    by (simp add: eval_defs)
  note t = batches_partition_nonempty_indices [of scenario, unfolded bb]
  from t have f: "filter (\<lambda>i. strip (b_text (scenario ! i)) \<noteq> []) [0..<length scenario] = [0, 1, 3]"
    by simp
  have "sorted_wrt (<) [0, 1, 3::nat] \<and> distinct [0, 1, 3::nat] \<and> 3 < length scenario"
    by (simp add: scenario_def)
  with bb f show ?thesis by blast
qed

subsection \<open>Determinism\<close>

lemma translate_det:
  assumes "\<forall>txt s. fst (tr txt s) = f txt"
  shows "\<exists>st1. translate tr c st = (f (call_text c), st1) \<and> results st1 = results st \<and>
           calls st1 = calls st @ [c]"
  using assms [rule_format, of "call_text c" "provider st"]
  by (auto simp: translate_def split: prod.splits)

lemma assign_single_det:
  assumes det: "\<forall>txt s. fst (tr txt s) = f txt"
    and sim: "results st = results st'" "calls st = calls st'"
  shows "results (snd (assign_single tr cb idx st)) = results (snd (assign_single tr cb idx st')) \<and>
         calls (snd (assign_single tr cb idx st)) = calls (snd (assign_single tr cb idx st'))"
proof -
  let ?c = "Single idx (b_text (cb ! idx))"
  obtain st1 where 1: "translate tr ?c st = (f (call_text ?c), st1)"
    "results st1 = results st" "calls st1 = calls st @ [?c]"
    using translate_det [OF det, of ?c st] by blast
  obtain st1' where 2: "translate tr ?c st' = (f (call_text ?c), st1')"
    "results st1' = results st'" "calls st1' = calls st' @ [?c]"
    using translate_det [OF det, of ?c st'] by blast
  show ?thesis
    using 1 2 sim by (cases "f (call_text ?c)") (simp_all add: assign_single_def)
qed

lemma fallback_det:
  assumes det: "\<forall>txt s. fst (tr txt s) = f txt"
    and sim: "results st = results st'" "calls st = calls st'"
  shows "results (fallback tr cb idxs st) = results (fallback tr cb idxs st') \<and>
         calls (fallback tr cb idxs st) = calls (fallback tr cb idxs st')"
  using sim
proof (induction idxs arbitrary: st st')
  case Nil
  then show ?case by (simp add: fallback_Nil)
next
  case (Cons idx idxs)
  from assign_single_det [OF det Cons.prems, of cb idx]
  show ?case
    unfolding fallback_Cons by (intro Cons.IH) simp_all
qed

lemma process_batch_det:
  assumes det: "\<forall>txt s. fst (tr txt s) = f txt"
    and sim: "results st = results st'" "calls st = calls st'"
  shows "results (process_batch tr cb st b) = results (process_batch tr cb st' b) \<and>
         calls (process_batch tr cb st b) = calls (process_batch tr cb st' b)"
proof -
  let ?c = "Whole (batch_indices b) (batch_text b)"
  obtain st1 where 1: "translate tr ?c st = (f (call_text ?c), st1)"
    "results st1 = results st" "calls st1 = calls st @ [?c]"
    using translate_det [OF det, of ?c st] by blast
  obtain st1' where 2: "translate tr ?c st' = (f (call_text ?c), st1')"
    "results st1' = results st'" "calls st1' = calls st' @ [?c]"
    using translate_det [OF det, of ?c st'] by blast
  have s1: "results st1 = results st1'" "calls st1 = calls st1'"
    using 1 2 sim by simp_all
  note fb = fallback_det [OF det, of _ _ cb "batch_indices b"]
  show ?thesis
  proof (cases "f (call_text ?c)")
    case Raises
    with 1 2 fb [OF s1] show ?thesis
      by (simp add: process_batch_def batch_body_def)
  next
    case (Returns chunk)
    let ?parts = "map strip (split_bars [] chunk)"
    show ?thesis
    proof (cases "length ?parts = length (batch_indices b)")
      case False
      with Returns 1 2 fb [OF s1] show ?thesis
        by (simp add: process_batch_def batch_body_def)
    next
      case True
      obtain r rs where sc: "scatter (zip (batch_indices b) ?parts) (results st1) = (r, rs)"
        by (cases "scatter (zip (batch_indices b) ?parts) (results st1)")
      have s2: "results (st1\<lparr>results := rs\<rparr>) = results (st1'\<lparr>results := rs\<rparr>)"
        "calls (st1\<lparr>results := rs\<rparr>) = calls (st1'\<lparr>results := rs\<rparr>)"
        using s1 by simp_all
      from True Returns 1 2 sc s1 fb [OF s2] show ?thesis
        by (cases r) (simp_all add: process_batch_def batch_body_def)
    qed
  qed
qed

lemma run_batches_det:
  assumes det: "\<forall>txt s. fst (tr txt s) = f txt"
    and sim: "results st = results st'" "calls st = calls st'"
  shows "results (run_batches tr cb bs st) = results (run_batches tr cb bs st') \<and>
         calls (run_batches tr cb bs st) = calls (run_batches tr cb bs st')"
  using sim
proof (induction bs arbitrary: st st')
  case Nil
  then show ?case by (simp add: run_batches_Nil)
next
  case (Cons b bs)
  from process_batch_det [OF det Cons.prems, of cb b]
  show ?case
    unfolding run_batches_Cons by (intro Cons.IH) simp_all
qed

text \<open>
  Claim C10. When the answer of the adapter is a function of the text it is given (whatever
  else the provider keeps or changes between calls), two runs on the same blocks with the
  same language codes return the same list, and make the same calls, from whatever states
  of the provider they start.
\<close>

theorem translate_content_deterministic:
  assumes "\<forall>txt s. fst (G src tgt txt s) = f txt"
  shows "results (translate_content G cb src tgt s1) = results (translate_content G cb src tgt s2) \<and>
         calls (translate_content G cb src tgt s1) = calls (translate_content G cb src tgt s2)"
  unfolding translate_content_def Let_def
  by (rule run_batches_det [OF assms]) (simp_all add: run_init_def)

theorem translate_content_deterministic_witness:
  "(\<forall>txt s. fst (merging_adapter (ascii ''auto'') (ascii ''id'') txt s) =
      Returns (map (\<lambda>c. if c = 124 then 32 else c) (upper txt))) \<and>
   results (translate_content merging_adapter scenario (ascii ''auto'') (ascii ''id'') 0) =
   results (translate_content merging_adapter scenario (ascii ''auto'') (ascii ''id'') 7) \<and>
   calls (translate_content merging_adapter scenario (ascii ''auto'') (ascii ''id'') 0) =
   calls (translate_content merging_adapter scenario (ascii ''auto'') (ascii ''id'') 7)"
proof -
  have h: "\<forall>txt s. fst (merging_adapter (ascii ''auto'') (ascii ''id'') txt s) =
      Returns (map (\<lambda>c. if c = 124 then 32 else c) (upper txt))"
    by (simp add: merging_adapter_def)
  show ?thesis
    using h translate_content_deterministic
      [of merging_adapter "ascii ''auto''" "ascii ''id''"
          "\<lambda>txt. Returns (map (\<lambda>c. if c = 124 then 32 else c) (upper txt))" scenario 0 7, OF h]
    by blast
qed

subsection \<open>The aligned path\<close>

lemma build_batches_split:
  assumes "build_batches cb = pre @ b # post"
  shows "distinct (batch_indices b)"
    and "\<forall>i\<in>set (batch_indices b). i < length cb"
    and "\<forall>b'\<in>set pre. \<forall>i\<in>set (batch_indices b). i \<notin> set (batch_indices b')"
    and "\<forall>b'\<in>set post. \<forall>i\<in>set (batch_indices b). i \<notin> set (batch_indices b')"
proof -
  have d: "distinct (concat (map batch_indices (pre @ b # post)))"
    using build_batches_distinct [of cb] assms by simp
  show "distinct (batch_indices b)" using d by simp
  show "\<forall>b'\<in>set pre. \<forall>i\<in>set (batch_indices b). i \<notin> set (batch_indices b')"
    using d by auto
  show "\<forall>b'\<in>set post. \<forall>i\<in>set (batch_indices b). i \<notin> set (batch_indices b')"
    using d by auto
  have "b \<in> set (build_batches cb)" using assms by simp
  then show "\<forall>i\<in>set (batch_indices b). i < length cb"
    by (simp add: build_batches_member)
qed

lemma translate_content_split:
  assumes "build_batches cb = pre @ b # post"
  shows "translate_content G cb src tgt s =
         run_batches (G src tgt) cb post
           (process_batch (G src tgt) cb (run_batches (G src tgt) cb pre (run_init cb s)) b)"
  by (simp add: translate_content_def Let_def assms run_batches_append run_batches_Cons)

lemma results_before:
  assumes "build_batches cb = pre @ b # post" and "i \<in> set (batch_indices b)"
  shows "results (run_batches tr cb pre (run_init cb s)) ! i = cb ! i"
proof -
  have "\<forall>b'\<in>set pre. i \<notin> set (batch_indices b')"
    using build_batches_split(3) [OF assms(1)] assms(2) by blast
  then show ?thesis
    by (simp add: run_batches_other results_run_init)
qed

lemma results_after:
  assumes "build_batches cb = pre @ b # post" and "i \<in> set (batch_indices b)"
  shows "results (translate_content G cb src tgt s) ! i =
         results (process_batch (G src tgt) cb (run_batches (G src tgt) cb pre (run_init cb s)) b) ! i"
proof -
  have "\<forall>b'\<in>set post. i \<notin> set (batch_indices b')"
    using build_batches_split(4) [OF assms(1)] assms(2) by blast
  then show ?thesis
    by (simp add: translate_content_split [OF assms(1)] run_batches_other)
qed

text \<open>
  Claim C2. Take any batch of the run and the state in which its turn comes. If the
  adapter returns a text for the batch's combined text and that text, split on the three
  bars and trimmed part by part, has as many parts as the batch has members, then the
  result returned at the end holds the k-th trimmed part as the text of the k-th member,
  for every k, and the batch has cost one adapter call, the one on its combined text.
\<close>

theorem fast_path_scatter:
  assumes bs: "build_batches cb = pre @ b # post"
    and st: "st = run_batches (G src tgt) cb pre (run_init cb s)"
    and ret: "fst (G src tgt (batch_text b) (provider st)) = Returns chunk"
    and cnt: "length (map strip (split_bars [] chunk)) = length (batch_indices b)"
  shows "(\<forall>k<length (batch_indices b).
            b_text (results (translate_content G cb src tgt s) ! (batch_indices b ! k)) =
            strip (split_bars [] chunk ! k)) \<and>
         calls (run_batches (G src tgt) cb (pre @ [b]) (run_init cb s)) =
           calls st @ [Whole (batch_indices b) (batch_text b)]"
proof (intro conjI allI impI)
  let ?tr = "G src tgt"
  let ?idxs = "batch_indices b"
  let ?parts = "map strip (split_bars [] chunk)"
  let ?ps = "zip ?idxs ?parts"
  have len: "length (results st) = length cb"
    by (simp add: st run_batches_length results_run_init)
  have valid: "\<forall>i\<in>set ?idxs. i < length (results st)"
    using build_batches_split(2) [OF bs] len by simp
  have pb: "process_batch ?tr cb st b =
      (snd (translate ?tr (Whole ?idxs (batch_text b)) st))\<lparr>results := snd (scatter ?ps (results st))\<rparr>"
    using ret cnt valid by (rule process_batch_fast)
  show "calls (run_batches ?tr cb (pre @ [b]) (run_init cb s)) =
        calls st @ [Whole ?idxs (batch_text b)]"
    by (simp add: run_batches_append run_batches_Cons run_batches_Nil st [symmetric] pb
        translate_calls)
  fix k assume k: "k < length ?idxs"
  then have mem: "?idxs ! k \<in> set ?idxs" by simp
  have psk: "?ps ! k = (?idxs ! k, ?parts ! k)" and lps: "k < length ?ps"
    using k cnt by simp_all
  have dps: "distinct (map fst ?ps)"
    using build_batches_split(1) [OF bs] cnt by (simp add: map_fst_zip)
  have vps: "\<forall>p\<in>set ?ps. fst p < length (results st)"
    using valid by (auto dest: set_zip_leftD)
  have "snd (scatter ?ps (results st)) ! fst (?ps ! k) =
        (results st ! fst (?ps ! k))\<lparr>b_text := snd (?ps ! k)\<rparr>"
    using dps vps lps by (rule scatter_nth)
  then have "b_text (results (process_batch ?tr cb st b) ! (?idxs ! k)) = ?parts ! k"
    by (simp add: pb psk)
  moreover have "?parts ! k = strip (split_bars [] chunk ! k)"
    using k cnt by simp
  ultimately show "b_text (results (translate_content G cb src tgt s) ! (?idxs ! k)) =
        strip (split_bars [] chunk ! k)"
    by (simp add: results_after [OF bs mem] st)
qed

theorem fast_path_scatter_witness:
  "build_batches scenario =
     [] @ \<lparr>batch_text = ascii ''Hello'' @ SEPARATOR @ ascii ''world'' @ SEPARATOR @ ascii ''Test'',
            batch_indices = [0, 1, 3]\<rparr> # [] \<and>
   fst (uppercase_adapter (ascii ''auto'') (ascii ''id'')
          (ascii ''Hello'' @ SEPARATOR @ ascii ''world'' @ SEPARATOR @ ascii ''Test'') ()) =
     Returns (ascii ''HELLO'' @ SEPARATOR @ ascii ''WORLD'' @ SEPARATOR @ ascii ''TEST'') \<and>
   map strip (split_bars [] (ascii ''HELLO'' @ SEPARATOR @ ascii ''WORLD'' @ SEPARATOR @ ascii ''TEST'')) =
     [ascii ''HELLO'', ascii ''WORLD'', ascii ''TEST''] \<and>
   b_text (results (translate_content uppercase_adapter scenario (ascii ''auto'') (ascii ''id'') ()) ! 0) =
     ascii ''HELLO'' \<and>
   b_text (results (translate_content uppercase_adapter scenario (ascii ''auto'') (ascii ''id'') ()) ! 1) =
     ascii ''WORLD'' \<and>
   b_text (results (translate_content uppercase_adapter scenario (ascii ''auto'') (ascii ''id'') ()) ! 3) =
     ascii ''TEST'' \<and>
   calls (run_batches (uppercase_adapter (ascii ''auto'') (ascii ''id'')) scenario
            ([] @ [\<lparr>batch_text = ascii ''Hello'' @ SEPARATOR @ ascii ''world'' @ SEPARATOR @ ascii ''Test'',
                    batch_indices = [0, 1, 3]\<rparr>]) (run_init scenario ())) =
     [Whole [0, 1, 3] (ascii ''Hello'' @ SEPARATOR @ ascii ''world'' @ SEPARATOR @ ascii ''Test'')]"
proof -
  let ?txt = "ascii ''Hello'' @ SEPARATOR @ ascii ''world'' @ SEPARATOR @ ascii ''Test''"
  let ?chunk = "ascii ''HELLO'' @ SEPARATOR @ ascii ''WORLD'' @ SEPARATOR @ ascii ''TEST''"
  let ?b = "\<lparr>batch_text = ?txt, batch_indices = [0, 1, 3]\<rparr>"
  let ?st = "run_init scenario () :: unit run"
  have bs: "build_batches scenario = [] @ ?b # []"
    by (simp add: eval_defs)
  have st: "?st = run_batches (uppercase_adapter (ascii ''auto'') (ascii ''id'')) scenario [] (run_init scenario ())"
    by (simp add: run_batches_Nil)
  have ret: "fst (uppercase_adapter (ascii ''auto'') (ascii ''id'') (batch_text ?b) (provider ?st)) =
      Returns ?chunk"
    by (simp add: uppercase_adapter_def upper_def ascii_def SEPARATOR_def)
  have parts: "map strip (split_bars [] ?chunk) = [ascii ''HELLO'', ascii ''WORLD'', ascii ''TEST'']"
    by (simp add: ascii_def SEPARATOR_def strip_def isspace_def)
  have cnt: "length (map strip (split_bars [] ?chunk)) = length (batch_indices ?b)"
    unfolding parts by simp
  note t = fast_path_scatter
    [where G = uppercase_adapter and src = "ascii ''auto''" and tgt = "ascii ''id''" and s = "()"
       and cb = scenario and pre = "[]" and post = "[]" and b = ?b and st = ?st and chunk = ?chunk,
     OF bs st ret cnt]
  from t have all: "\<forall>k<3. b_text (results (translate_content uppercase_adapter scenario
        (ascii ''auto'') (ascii ''id'') ()) ! ([0, 1, 3] ! k)) = map strip (split_bars [] ?chunk) ! k"
    using cnt by simp
  have r0: "b_text (results (translate_content uppercase_adapter scenario (ascii ''auto'') (ascii ''id'') ()) ! 0) =
     ascii ''HELLO''"
    using all [rule_format, of 0] unfolding parts by simp
  have r1: "b_text (results (translate_content uppercase_adapter scenario (ascii ''auto'') (ascii ''id'') ()) ! 1) =
     ascii ''WORLD''"
    using all [rule_format, of 1] unfolding parts by simp
  have r3: "b_text (results (translate_content uppercase_adapter scenario (ascii ''auto'') (ascii ''id'') ()) ! 3) =
     ascii ''TEST''"
    using all [rule_format, of 2] unfolding parts by simp
  from t have c: "calls (run_batches (uppercase_adapter (ascii ''auto'') (ascii ''id'')) scenario
            ([] @ [?b]) (run_init scenario ())) = [Whole [0, 1, 3] ?txt]"
    by (simp add: run_init_def)
  from bs ret parts r0 r1 r3 c show ?thesis by simp
qed

subsection \<open>The fall-back path\<close>

lemma assign_single_at:
  assumes "i < length cb" and "i < length (results st)"
  shows "b_text (results (snd (assign_single tr cb i st)) ! i) =
         (case fst (tr (b_text (cb ! i)) (provider st)) of
            Returns t \<Rightarrow> t | Raises \<Rightarrow> b_text (results st ! i))"
  using assms
  by (auto simp: assign_single_def translate_def split: prod.splits outcome.splits)

lemma fallback_at:
  assumes d: "distinct idxs" and k: "k < length idxs"
    and v: "idxs ! k < length cb" "idxs ! k < length (results st)"
  shows "b_text (results (fallback tr cb idxs st) ! (idxs ! k)) =
         (case fst (tr (b_text (cb ! (idxs ! k)))
                      (provider (fallback tr cb (take k idxs) st))) of
            Returns t \<Rightarrow> t | Raises \<Rightarrow> b_text (results st ! (idxs ! k)))"
proof -
  let ?i = "idxs ! k"
  let ?stk = "fallback tr cb (take k idxs) st"
  have split: "idxs = take k idxs @ ?i # drop (Suc k) idxs"
    using k by (rule id_take_nth_drop)
  have d': "distinct (take k idxs @ ?i # drop (Suc k) idxs)"
    using d split by simp
  have n1: "?i \<notin> set (take k idxs)" and n2: "?i \<notin> set (drop (Suc k) idxs)"
    using d' by auto
  have "fallback tr cb idxs st =
        fallback tr cb (drop (Suc k) idxs) (snd (assign_single tr cb ?i ?stk))"
    by (subst split) (simp add: fallback_append fallback_Cons)
  then have "results (fallback tr cb idxs st) ! ?i =
        results (snd (assign_single tr cb ?i ?stk)) ! ?i"
    using n2 by (simp add: fallback_other)
  moreover have "length (results ?stk) = length (results st)"
    by (rule fallback_length)
  moreover have "results ?stk ! ?i = results st ! ?i"
    using n1 by (rule fallback_other)
  ultimately show ?thesis
    using v by (simp add: assign_single_at split: outcome.splits)
qed

text \<open>
  Claim C3, as amended. Take any batch of the run and the state in which its turn comes.
  If the call on the batch's combined text raises, or returns a text whose split has not
  as many parts as the batch has members, then after that call the adapter is called once
  for every member, in order, on the member's text as the input holds it (not trimmed);
  the result returned at the end holds, for each member, the text that its call returned,
  or the input's text when its call raised; and the result has the input's length.
\<close>

theorem per_member_fallback:
  assumes bs: "build_batches cb = pre @ b # post"
    and st: "st = run_batches (G src tgt) cb pre (run_init cb s)"
    and st1: "st1 = snd (translate (G src tgt) (Whole (batch_indices b) (batch_text b)) st)"
    and slow: "fst (G src tgt (batch_text b) (provider st)) = Raises \<or>
           (\<exists>chunk. fst (G src tgt (batch_text b) (provider st)) = Returns chunk \<and>
              length (map strip (split_bars [] chunk)) \<noteq> length (batch_indices b))"
  shows "calls (run_batches (G src tgt) cb (pre @ [b]) (run_init cb s)) =
           calls st @ Whole (batch_indices b) (batch_text b) #
             map (\<lambda>i. Single i (b_text (cb ! i))) (batch_indices b) \<and>
         (\<forall>k<length (batch_indices b).
            b_text (results (translate_content G cb src tgt s) ! (batch_indices b ! k)) =
            (case fst (G src tgt (b_text (cb ! (batch_indices b ! k)))
                         (provider (fallback (G src tgt) cb (take k (batch_indices b)) st1))) of
               Returns t \<Rightarrow> t
             | Raises \<Rightarrow> b_text (cb ! (batch_indices b ! k)))) \<and>
         length (results (translate_content G cb src tgt s)) = length cb"
proof (intro conjI allI impI)
  let ?tr = "G src tgt"
  let ?idxs = "batch_indices b"
  have pb: "process_batch ?tr cb st b = fallback ?tr cb ?idxs st1"
    unfolding st1 using slow by (rule process_batch_slow)
  have valid: "\<forall>i\<in>set ?idxs. i < length cb"
    by (rule build_batches_split(2) [OF bs])
  have r1: "results st1 = results st" and c1: "calls st1 = calls st @ [Whole ?idxs (batch_text b)]"
    by (simp_all add: st1 translate_results translate_calls)
  have len: "length (results st) = length cb"
    by (simp add: st run_batches_length results_run_init)
  show "calls (run_batches ?tr cb (pre @ [b]) (run_init cb s)) =
        calls st @ Whole ?idxs (batch_text b) # map (\<lambda>i. Single i (b_text (cb ! i))) ?idxs"
    using fallback_calls [OF valid, of ?tr st1]
    by (simp add: run_batches_append run_batches_Cons run_batches_Nil st [symmetric] pb c1)
  show "length (results (translate_content G cb src tgt s)) = length cb"
    by (simp add: translate_content_def Let_def run_batches_length results_run_init)
  fix k assume k: "k < length ?idxs"
  then have mem: "?idxs ! k \<in> set ?idxs" by simp
  have orig: "results st1 ! (?idxs ! k) = cb ! (?idxs ! k)"
    using results_before [OF bs mem, of ?tr s] by (simp add: r1 st)
  have "b_text (results (fallback ?tr cb ?idxs st1) ! (?idxs ! k)) =
         (case fst (?tr (b_text (cb ! (?idxs ! k)))
                      (provider (fallback ?tr cb (take k ?idxs) st1))) of
            Returns t \<Rightarrow> t | Raises \<Rightarrow> b_text (results st1 ! (?idxs ! k)))"
    using build_batches_split(1) [OF bs] k valid mem len r1
    by (intro fallback_at) simp_all
  then show "b_text (results (translate_content G cb src tgt s) ! (?idxs ! k)) =
            (case fst (?tr (b_text (cb ! (?idxs ! k)))
                         (provider (fallback ?tr cb (take k ?idxs) st1))) of
               Returns t \<Rightarrow> t
             | Raises \<Rightarrow> b_text (cb ! (?idxs ! k)))"
    by (simp add: results_after [OF bs mem] st [symmetric] pb orig split: outcome.splits)
qed

theorem per_member_fallback_witness:
  "build_batches scenario =
     [] @ \<lparr>batch_text = ascii ''Hello'' @ SEPARATOR @ ascii ''world'' @ SEPARATOR @ ascii ''Test'',
            batch_indices = [0, 1, 3]\<rparr> # [] \<and>
   fst (merging_adapter (ascii ''auto'') (ascii ''id'')
          (ascii ''Hello'' @ SEPARATOR @ ascii ''world'' @ SEPARATOR @ ascii ''Test'') 0) =
     Returns (ascii ''HELLO'' @ [10, 32, 32, 32, 10] @ ascii ''WORLD'' @ [10, 32, 32, 32, 10] @
              ascii ''TEST'') \<and>
   length (map strip (split_bars []
      (ascii ''HELLO'' @ [10, 32, 32, 32, 10] @ ascii ''WORLD'' @ [10, 32, 32, 32, 10] @
       ascii ''TEST''))) = 1 \<and>
   calls (run_batches (merging_adapter (ascii ''auto'') (ascii ''id'')) scenario
            ([] @ [\<lparr>batch_text = ascii ''Hello'' @ SEPARATOR @ ascii ''world'' @ SEPARATOR @ ascii ''Test'',
                    batch_indices = [0, 1, 3]\<rparr>]) (run_init scenario 0)) =
     [Whole [0, 1, 3] (ascii ''Hello'' @ SEPARATOR @ ascii ''world'' @ SEPARATOR @ ascii ''Test''),
      Single 0 (ascii ''Hello''), Single 1 (ascii ''world''), Single 3 (ascii ''Test'')] \<and>
   b_text (results (translate_content merging_adapter scenario (ascii ''auto'') (ascii ''id'') 0) ! 0) =
     ascii ''HELLO'' \<and>
   b_text (results (translate_content merging_adapter scenario (ascii ''auto'') (ascii ''id'') 0) ! 1) =
     ascii ''WORLD'' \<and>
   b_text (results (translate_content merging_adapter scenario (ascii ''auto'') (ascii ''id'') 0) ! 3) =
     ascii ''TEST'' \<and>
   length (results (translate_content merging_adapter scenario (ascii ''auto'') (ascii ''id'') 0)) = 4"
proof -
  let ?txt = "ascii ''Hello'' @ SEPARATOR @ ascii ''world'' @ SEPARATOR @ ascii ''Test''"
  let ?chunk = "ascii ''HELLO'' @ [10, 32, 32, 32, 10] @ ascii ''WORLD'' @ [10, 32, 32, 32, 10] @
       ascii ''TEST''"
  let ?b = "\<lparr>batch_text = ?txt, batch_indices = [0, 1, 3]\<rparr>"
  let ?tr = "merging_adapter (ascii ''auto'') (ascii ''id'')"
  let ?st = "run_init scenario 0 :: nat run"
  let ?R = "translate_content merging_adapter scenario (ascii ''auto'') (ascii ''id'') 0"
  have bs: "build_batches scenario = [] @ ?b # []"
    by (simp add: eval_defs)
  have st: "?st = run_batches ?tr scenario [] (run_init scenario 0)"
    by (simp add: run_batches_Nil)
  have ret: "fst (?tr ?txt 0) = Returns ?chunk"
    by (simp add: merging_adapter_def upper_def ascii_def SEPARATOR_def)
  have cnt: "length (map strip (split_bars [] ?chunk)) = 1"
    by (simp add: ascii_def)
  have slow: "fst (?tr (batch_text ?b) (provider ?st)) = Raises \<or>
           (\<exists>chunk. fst (?tr (batch_text ?b) (provider ?st)) = Returns chunk \<and>
              length (map strip (split_bars [] chunk)) \<noteq> length (batch_indices ?b))"
    using ret cnt by (simp add: run_init_def)
  note t = per_member_fallback
    [where G = merging_adapter and src = "ascii ''auto''" and tgt = "ascii ''id''" and s = 0
       and cb = scenario and pre = "[]" and post = "[]" and b = ?b and st = ?st,
     OF bs st refl slow]
  from t have c: "calls (run_batches ?tr scenario ([] @ [?b]) (run_init scenario 0)) =
     [Whole [0, 1, 3] ?txt, Single 0 (ascii ''Hello''), Single 1 (ascii ''world''),
      Single 3 (ascii ''Test'')]"
    by (simp add: run_init_def scenario_def)
  from t have all: "\<forall>k<3. b_text (results ?R ! ([0, 1, 3] ! k)) =
     map (\<lambda>c. if c = 124 then 32 else c) (upper (b_text (scenario ! ([0, 1, 3] ! k))))"
    by (simp add: merging_adapter_def)
  have r0: "b_text (results ?R ! 0) = ascii ''HELLO''"
    using all [rule_format, of 0] by (simp add: scenario_def upper_def ascii_def)
  have r1: "b_text (results ?R ! 1) = ascii ''WORLD''"
    using all [rule_format, of 1] by (simp add: scenario_def upper_def ascii_def)
  have r3: "b_text (results ?R ! 3) = ascii ''TEST''"
    using all [rule_format, of 2] by (simp add: scenario_def upper_def ascii_def)
  from t have l: "length (results ?R) = 4"
    by (simp add: scenario_def)
  from bs ret cnt c r0 r1 r3 l show ?thesis by simp
qed

theorem per_member_call_untrimmed_counterexample:
  "strip [32, 97] = [97] \<and>
   calls (translate_content raising_adapter [\<lparr>b_text = [32, 97], b_size = 12\<rparr>]
            (ascii ''auto'') (ascii ''id'') ()) =
     [Whole [0] [97], Single 0 [32, 97]] \<and>
   Single 0 (strip [32, 97]) \<notin>
     set (calls (translate_content raising_adapter [\<lparr>b_text = [32, 97], b_size = 12\<rparr>]
            (ascii ''auto'') (ascii ''id'') ()))"
  by (simp add: eval_defs)

subsection \<open>The character budget\<close>

lemma strip_replicate: "\<not> isspace c \<Longrightarrow> strip (replicate n c) = replicate n c"
  by (cases n) (simp_all add: strip_def replicate_append_same [symmetric] del: replicate_Suc)

lemma strip_letters: "strip (b_text (letters n)) = replicate n 97"
  by (simp add: letters_def strip_replicate isspace_def)

text \<open>
  Claim C4 fails on the code. The running count restarts at the length of the fragment
  that opens a batch (line 92), without the separator that line 96 adds for every other
  member, so the test of line 83 lets a batch of two or more members grow up to five
  characters past the threshold. Fragments of 3000, 2000 and 2000 letters give the
  batches \<open>[0]\<close> and \<open>[1, 2]\<close>, and the combined text of the second has 4005
  characters.
\<close>

theorem budget_exceeded_by_separator:
  "build_batches [letters 3000, letters 2000, letters 2000] =
     [\<lparr>batch_text = replicate 3000 97, batch_indices = [0]\<rparr>,
      \<lparr>batch_text = replicate 2000 97 @ SEPARATOR @ replicate 2000 97, batch_indices = [1, 2]\<rparr>] \<and>
   length (replicate 2000 97 @ SEPARATOR @ replicate 2000 (97::nat)) = 4005"
  by (simp add: build_batches_def batching_loop_def batch_step_def batching_init_def commit_def
      strip_letters SEPARATOR_def Let_def)

lemma two_fragments_of_3000:
  "build_batches [letters 3000, letters 3000] =
     [\<lparr>batch_text = replicate 3000 97, batch_indices = [0]\<rparr>,
      \<lparr>batch_text = replicate 3000 97, batch_indices = [1]\<rparr>]"
  by (simp add: build_batches_def batching_loop_def batch_step_def batching_init_def commit_def
      strip_letters SEPARATOR_def Let_def)

lemma length_join_snoc:
  "length (join sep (ts @ [t])) =
   (if ts = [] then length t else length (join sep ts) + length sep + length t)"
  by (induction sep ts rule: join.induct) simp_all

lemma batch_step_budget:
  assumes len: "length (current_batch_text st) = length (current_batch_indices st)"
    and cnt: "length (join SEPARATOR (current_batch_text st)) \<le> current_char_count st"
    and cur: "2 \<le> length (current_batch_text st) \<longrightarrow>
              length (join SEPARATOR (current_batch_text st)) \<le> 4005"
    and old: "\<forall>b\<in>set (batches st). length (batch_indices b) \<le> 1 \<or> length (batch_text b) \<le> 4005"
  shows "length (join SEPARATOR (current_batch_text (batch_step st ib))) \<le>
           current_char_count (batch_step st ib) \<and>
         (2 \<le> length (current_batch_text (batch_step st ib)) \<longrightarrow>
            length (join SEPARATOR (current_batch_text (batch_step st ib))) \<le> 4005) \<and>
         (\<forall>b\<in>set (batches (batch_step st ib)).
            length (batch_indices b) \<le> 1 \<or> length (batch_text b) \<le> 4005)"
proof -
  let ?txt = "strip (b_text (snd ib))"
  consider (skip) "?txt = []"
    | (reset) "?txt \<noteq> []" "current_char_count st + length ?txt > 4000"
    | (add) "?txt \<noteq> []" "\<not> current_char_count st + length ?txt > 4000"
    by blast
  then show ?thesis
  proof cases
    case skip
    with cnt cur old show ?thesis by (simp add: batch_step_def)
  next
    case reset
    have "length (current_batch_indices st) \<le> 1 \<or>
          length (join SEPARATOR (current_batch_text st)) \<le> 4005"
      using cur len by (cases "2 \<le> length (current_batch_text st)") simp_all
    with reset old show ?thesis
      by (simp add: batch_step_def commit_def Let_def)
  next
    case add
    have sep: "length SEPARATOR = 5" by (simp add: SEPARATOR_def)
    from add cnt old sep show ?thesis
      by (auto simp: batch_step_def Let_def length_join_snoc)
  qed
qed

lemma foldl_batch_step_budget:
  assumes "length (current_batch_text st) = length (current_batch_indices st)"
    and "length (join SEPARATOR (current_batch_text st)) \<le> current_char_count st"
    and "2 \<le> length (current_batch_text st) \<longrightarrow>
              length (join SEPARATOR (current_batch_text st)) \<le> 4005"
    and "\<forall>b\<in>set (batches st). length (batch_indices b) \<le> 1 \<or> length (batch_text b) \<le> 4005"
  shows "(2 \<le> length (current_batch_text (foldl batch_step st ps)) \<longrightarrow>
            length (join SEPARATOR (current_batch_text (foldl batch_step st ps))) \<le> 4005) \<and>
         (\<forall>b\<in>set (batches (foldl batch_step st ps)).
            length (batch_indices b) \<le> 1 \<or> length (batch_text b) \<le> 4005)"
  using assms
proof (induction ps arbitrary: st)
  case Nil
  then show ?case by simp
next
  case (Cons p ps)
  from batch_step_budget [OF Cons.prems, of p] batch_step_lengths [OF Cons.prems(1), of p]
  show ?case
    unfolding foldl_Cons by (intro Cons.IH) simp_all
qed

text \<open>
  What the loop does guarantee: a batch of two or more members has a combined text of at
  most 4005 characters, the threshold plus one separator.
\<close>

lemma batch_text_bound:
  assumes "b \<in> set (build_batches cb)"
  shows "length (batch_indices b) \<le> 1 \<or> length (batch_text b) \<le> 4005"
proof -
  let ?st = "batching_loop cb"
  have len: "length (current_batch_text ?st) = length (current_batch_indices ?st)"
    unfolding batching_loop_def
    by (rule foldl_batch_step_lengths) (simp add: batching_init_def)
  have inv: "(2 \<le> length (current_batch_text ?st) \<longrightarrow>
            length (join SEPARATOR (current_batch_text ?st)) \<le> 4005) \<and>
         (\<forall>b\<in>set (batches ?st). length (batch_indices b) \<le> 1 \<or> length (batch_text b) \<le> 4005)"
    unfolding batching_loop_def
    by (rule foldl_batch_step_budget) (simp_all add: batching_init_def)
  have last: "length (current_batch_indices ?st) \<le> 1 \<or>
          length (join SEPARATOR (current_batch_text ?st)) \<le> 4005"
    using inv len by (cases "2 \<le> length (current_batch_text ?st)") simp_all
  from assms inv last show ?thesis
    by (auto simp: build_batches_def commit_def Let_def split: if_splits)
qed

subsection \<open>Heading levels\<close>










text \<open>
  When the sum and the difference are exact, as they are on Python's \<open>int\<close> and on every
  \<open>float\<close> computation whose result is a \<open>float\<close>, the levels are decided by the thresholds
  mode + 10, mode + 5 and mode + 2: above the first, above the second, from the third on.
\<close>

lemma exact_heading_levels:
  "(if b_size b \<ge> mode + 2 then
      (if b_size b - mode > 10 then Heading 1 (b_text b)
       else if b_size b - mode > 5 then Heading 2 (b_text b)
       else Heading 3 (b_text b))
    else Paragraph (b_text b)) =
   (if b_size b > mode + 10 then Heading 1 (b_text b)
    else if b_size b > mode + 5 then Heading 2 (b_text b)
    else if b_size b \<ge> mode + 2 then Heading 3 (b_text b)
    else Paragraph (b_text b))"
  by auto

subsection \<open>The store and the model by value\<close>

lemma copy_each_eq:
  "\<forall>a\<in>set as. a < length h0 \<Longrightarrow>
   copy_each as (h0 @ xs) =
     ([length h0 + length xs..<length h0 + length xs + length as],
      h0 @ xs @ map (\<lambda>a. Dict (dict_copy (dict_at h0 a))) as)"
proof (induction as arbitrary: xs)
  case Nil
  show ?case by simp
next
  case (Cons a as)
  have d: "dict_at (h0 @ xs) a = dict_at h0 a"
    using Cons.prems by (simp add: dict_at_def nth_append)
  have "copy_each as (h0 @ (xs @ [Dict (dict_copy (dict_at h0 a))])) =
     ([length h0 + length (xs @ [Dict (dict_copy (dict_at h0 a))])..<
        length h0 + length (xs @ [Dict (dict_copy (dict_at h0 a))]) + length as],
      h0 @ (xs @ [Dict (dict_copy (dict_at h0 a))]) @ map (\<lambda>a. Dict (dict_copy (dict_at h0 a))) as)"
    using Cons.prems by (intro Cons.IH) simp
  moreover have "[length h0 + length xs..<length h0 + length xs + length (a # as)] =
      (length h0 + length xs) # [Suc (length h0 + length xs)..<Suc (length h0 + length xs) + length as]"
    by (subst upt_conv_Cons) (simp_all del: upt_Suc)
  ultimately show ?case
    by (simp add: alloc_def d del: upt_Suc)
qed

lemma well_formedD:
  assumes "well_formed h cbr"
  shows "cbr < length h" and "\<forall>a\<in>set (list_at h cbr). a < length h"
  using assms
  by (auto simp: well_formed_def list_at_def list_all_iff split: obj.splits)

lemma list_at_old: "a < length h0 \<Longrightarrow> list_at (h0 @ xs) a = list_at h0 a"
  by (simp add: list_at_def nth_append)

lemma dict_at_old: "a < length h0 \<Longrightarrow> dict_at (h0 @ xs) a = dict_at h0 a"
  by (simp add: dict_at_def nth_append)

lemma list_at_res: "list_at (h0 @ map Dict rs @ [List l]) (length h0 + length rs) = l"
  by (simp add: list_at_def nth_append)

lemma set_text_new:
  "idx < length rs \<Longrightarrow>
   set_text (h0 @ map Dict rs @ [List l]) (length h0 + idx) t =
   h0 @ map Dict (rs[idx := (rs ! idx)\<lparr>b_text := t\<rparr>]) @ [List l]"
  by (simp add: set_text_def dict_at_def nth_append list_update_append map_update)

lemma sim_translate:
  assumes "sim h0 m sh sv"
  shows "fst (htranslate tr c sh) = fst (translate tr c sv) \<and>
         sim h0 m (snd (htranslate tr c sh)) (snd (translate tr c sv))"
  using assms by (auto simp: sim_def htranslate_def translate_def split: prod.splits)

lemma sim_assign_single:
  assumes wf: "well_formed h0 cbr" and s: "sim h0 (length (list_at h0 cbr)) sh sv"
  shows "fst (hassign_single tr cbr (length h0 + length (list_at h0 cbr)) idx sh) =
           fst (assign_single tr (input_blocks h0 cbr) idx sv) \<and>
         sim h0 (length (list_at h0 cbr))
           (snd (hassign_single tr cbr (length h0 + length (list_at h0 cbr)) idx sh))
           (snd (assign_single tr (input_blocks h0 cbr) idx sv))"
proof -
  let ?cb = "list_at h0 cbr"
  let ?m = "length ?cb"
  let ?n = "length h0"
  let ?l = "[?n..<?n + ?m]"
  have hp: "\<And>sh sv. sim h0 ?m sh sv \<Longrightarrow>
      heap sh = h0 @ map Dict (results sv) @ [List ?l] \<and> length (results sv) = ?m"
    by (simp add: sim_def)
  have cb: "list_at (heap sh) cbr = ?cb"
    using hp [OF s] well_formedD(1) [OF wf] by (simp add: list_at_old)
  show ?thesis
  proof (cases "idx < ?m")
    case False
    then show ?thesis using s cb
      by (simp add: hassign_single_def assign_single_def input_blocks_def)
  next
    case True
    then have a: "?cb ! idx < ?n"
      using well_formedD(2) [OF wf] by simp
    have d: "dict_at (heap sh) (?cb ! idx) = input_blocks h0 cbr ! idx"
      using hp [OF s] a True by (simp add: dict_at_old input_blocks_def)
    let ?c = "Single idx (b_text (input_blocks h0 cbr ! idx))"
    obtain r sh1 where th: "htranslate tr ?c sh = (r, sh1)" by (cases "htranslate tr ?c sh")
    obtain r' sv1 where tv: "translate tr ?c sv = (r', sv1)" by (cases "translate tr ?c sv")
    from sim_translate [OF s, of tr ?c] th tv
    have rr: "r' = r" and s1: "sim h0 ?m sh1 sv1" by simp_all
    have res1: "list_at (heap sh1) (?n + ?m) = ?l"
      using hp [OF s1] list_at_res [of h0 "results sv1" ?l] by simp
    have upd: "set_text (heap sh1) (?n + idx) t =
        h0 @ map Dict ((results sv1)[idx := (results sv1 ! idx)\<lparr>b_text := t\<rparr>]) @ [List ?l]" for t
      using hp [OF s1] True by (simp add: set_text_new)
    have s2: "sim h0 ?m (sh1\<lparr>heap := set_text (heap sh1) (?n + idx) t\<rparr>)
        (sv1\<lparr>results := (results sv1)[idx := (results sv1 ! idx)\<lparr>b_text := t\<rparr>]\<rparr>)" for t
      using s1 upd [of t] by (simp add: sim_def)
    show ?thesis
      using True cb d th tv rr s1 res1 s2 hp [OF s1]
      by (cases r) (simp_all add: hassign_single_def assign_single_def input_blocks_def)
  qed
qed

lemma hfallback_Cons:
  "hfallback tr cbr r (idx # idxs) sh = hfallback tr cbr r idxs (snd (hassign_single tr cbr r idx sh))"
  by (simp add: hfallback_def hfallback_step_def split: prod.splits)

lemma sim_fallback:
  assumes wf: "well_formed h0 cbr" and s: "sim h0 (length (list_at h0 cbr)) sh sv"
  shows "sim h0 (length (list_at h0 cbr))
           (hfallback tr cbr (length h0 + length (list_at h0 cbr)) idxs sh)
           (fallback tr (input_blocks h0 cbr) idxs sv)"
  using s
proof (induction idxs arbitrary: sh sv)
  case Nil
  then show ?case by (simp add: hfallback_def fallback_def)
next
  case (Cons idx idxs)
  have "sim h0 (length (list_at h0 cbr))
      (snd (hassign_single tr cbr (length h0 + length (list_at h0 cbr)) idx sh))
      (snd (assign_single tr (input_blocks h0 cbr) idx sv))"
    using sim_assign_single [OF wf Cons.prems] by blast
  from Cons.IH [OF this] show ?case
    by (simp add: hfallback_Cons fallback_Cons)
qed

lemma sim_scatter:
  assumes "length rs = m"
  shows "fst (hscatter (length h0 + m) ps (h0 @ map Dict rs @ [List [length h0..<length h0 + m]])) =
           fst (scatter ps rs) \<and>
         snd (hscatter (length h0 + m) ps (h0 @ map Dict rs @ [List [length h0..<length h0 + m]])) =
           h0 @ map Dict (snd (scatter ps rs)) @ [List [length h0..<length h0 + m]]"
  using assms
proof (induction ps rs rule: scatter.induct)
  case (1 rs)
  show ?case by simp
next
  case (2 idx part ps rs)
  let ?l = "[length h0..<length h0 + m]"
  have res: "list_at (h0 @ map Dict rs @ [List ?l]) (length h0 + m) = ?l"
    using list_at_res [of h0 rs ?l] "2.prems" by simp
  show ?case
  proof (cases "idx < length rs")
    case False
    with res "2.prems" show ?thesis by simp
  next
    case True
    have "length (rs[idx := (rs ! idx)\<lparr>b_text := part\<rparr>]) = m"
      using "2.prems" by simp
    from "2.IH" [OF True this] True res "2.prems" show ?thesis
      by (simp add: set_text_new)
  qed
qed

lemma sim_process_batch:
  assumes wf: "well_formed h0 cbr" and s: "sim h0 (length (list_at h0 cbr)) sh sv"
  shows "sim h0 (length (list_at h0 cbr))
           (hprocess_batch tr cbr (length h0 + length (list_at h0 cbr)) sh b)
           (process_batch tr (input_blocks h0 cbr) sv b)"
proof -
  let ?m = "length (list_at h0 cbr)"
  let ?res = "length h0 + ?m"
  let ?l = "[length h0..<length h0 + ?m]"
  let ?c = "Whole (batch_indices b) (batch_text b)"
  obtain r sh1 where th: "htranslate tr ?c sh = (r, sh1)" by (cases "htranslate tr ?c sh")
  obtain r' sv1 where tv: "translate tr ?c sv = (r', sv1)" by (cases "translate tr ?c sv")
  from sim_translate [OF s, of tr ?c] th tv
  have rr: "r' = r" and s1: "sim h0 ?m sh1 sv1" by simp_all
  note fb = sim_fallback [OF wf, of _ _ tr "batch_indices b"]
  show ?thesis
  proof (cases r)
    case Raises
    with th tv rr fb [OF s1] show ?thesis
      by (simp add: hprocess_batch_def process_batch_def hbatch_body_def batch_body_def)
  next
    case (Returns chunk)
    let ?parts = "map strip (split_bars [] chunk)"
    show ?thesis
    proof (cases "length ?parts = length (batch_indices b)")
      case False
      with Returns th tv rr fb [OF s1] show ?thesis
        by (simp add: hprocess_batch_def process_batch_def hbatch_body_def batch_body_def)
    next
      case True
      let ?ps = "zip (batch_indices b) ?parts"
      have h1: "heap sh1 = h0 @ map Dict (results sv1) @ [List ?l]"
        and l1: "length (results sv1) = ?m"
        using s1 by (simp_all add: sim_def)
      obtain q rs where sc: "scatter ?ps (results sv1) = (q, rs)"
        by (cases "scatter ?ps (results sv1)")
      from sim_scatter [OF l1, of h0 ?ps] sc h1
      have hsc: "hscatter ?res ?ps (heap sh1) = (q, h0 @ map Dict rs @ [List ?l])"
        by (cases "hscatter ?res ?ps (heap sh1)") simp
      have lrs: "length rs = ?m"
        using scatter_length [of ?ps "results sv1"] sc l1 by simp
      have s2: "sim h0 ?m (sh1\<lparr>heap := h0 @ map Dict rs @ [List ?l]\<rparr>) (sv1\<lparr>results := rs\<rparr>)"
        using s1 lrs by (simp add: sim_def)
      from True Returns th tv rr sc hsc s2 fb [OF s2] show ?thesis
        by (cases q)
          (simp_all add: hprocess_batch_def process_batch_def hbatch_body_def batch_body_def)
    qed
  qed
qed

lemma sim_run_batches:
  assumes wf: "well_formed h0 cbr" and s: "sim h0 (length (list_at h0 cbr)) sh sv"
  shows "sim h0 (length (list_at h0 cbr))
           (hrun_batches tr cbr (length h0 + length (list_at h0 cbr)) bs sh)
           (run_batches tr (input_blocks h0 cbr) bs sv)"
  using s
proof (induction bs arbitrary: sh sv)
  case Nil
  then show ?case by (simp add: hrun_batches_def run_batches_def)
next
  case (Cons b bs)
  from Cons.IH [OF sim_process_batch [OF wf Cons.prems, of tr b]]
  show ?case by (simp add: hrun_batches_def run_batches_def)
qed

lemma htranslate_content_sim:
  assumes wf: "well_formed h cbr"
  shows "fst (htranslate_content G cbr src tgt h s) = length h + length (list_at h cbr) \<and>
         sim h (length (list_at h cbr)) (snd (htranslate_content G cbr src tgt h s))
           (translate_content G (input_blocks h cbr) src tgt s)"
proof -
  let ?cb = "list_at h cbr"
  have ce: "copy_each ?cb h =
      ([length h..<length h + length ?cb], h @ map (\<lambda>a. Dict (dict_copy (dict_at h a))) ?cb)"
    using copy_each_eq [of ?cb h "[]"] well_formedD(2) [OF wf] by simp
  have init: "sim h (length ?cb)
      \<lparr>heap = (h @ map (\<lambda>a. Dict (dict_copy (dict_at h a))) ?cb) @ [List [length h..<length h + length ?cb]],
        hprovider = s, hcalls = []\<rparr>
      (run_init (input_blocks h cbr) s)"
    by (simp add: sim_def run_init_def input_blocks_def comp_def)
  from sim_run_batches [OF wf init, of "G src tgt" "build_batches (input_blocks h cbr)"]
  show ?thesis
    by (simp add: htranslate_content_def translate_content_def Let_def ce alloc_def
        input_blocks_def)
qed

subsection \<open>The caller's objects\<close>

lemma dicts_of_new:
  "map (dict_at (h0 @ map Dict rs @ ys)) [length h0..<length h0 + length rs] = rs"
  by (rule nth_equalityI) (simp_all add: dict_at_def nth_append)

text \<open>
  Claim C7. For a store in which \<open>content_blocks\<close> refers to a list of dictionaries, and
  for every adapter: after the call every object that the store held before, the input
  list and its dictionaries among them, is as it was; the returned list and the
  dictionaries it refers to are new objects; the sizes read through the returned list are
  the sizes read through the input list, position by position; and the returned list
  denotes the list that the model by value computes.
\<close>

theorem translate_content_frame:
  assumes wf: "well_formed h content_blocks"
  shows "take (length h) (heap (snd (htranslate_content G content_blocks src tgt h s))) = h \<and>
         input_blocks (heap (snd (htranslate_content G content_blocks src tgt h s))) content_blocks =
           input_blocks h content_blocks \<and>
         length h \<le> fst (htranslate_content G content_blocks src tgt h s) \<and>
         list_all (\<lambda>a. length h \<le> a)
           (list_at (heap (snd (htranslate_content G content_blocks src tgt h s)))
              (fst (htranslate_content G content_blocks src tgt h s))) \<and>
         map b_size
           (input_blocks (heap (snd (htranslate_content G content_blocks src tgt h s)))
              (fst (htranslate_content G content_blocks src tgt h s))) =
           map b_size (input_blocks h content_blocks) \<and>
         input_blocks (heap (snd (htranslate_content G content_blocks src tgt h s)))
              (fst (htranslate_content G content_blocks src tgt h s)) =
           results (translate_content G (input_blocks h content_blocks) src tgt s)"
proof -
  let ?R = "htranslate_content G content_blocks src tgt h s"
  let ?V = "translate_content G (input_blocks h content_blocks) src tgt s"
  let ?n = "length h"
  let ?m = "length (list_at h content_blocks)"
  let ?l = "[?n..<?n + ?m]"
  from htranslate_content_sim [OF wf, of G src tgt s]
  have ref: "fst ?R = ?n + ?m" and sm: "sim h ?m (snd ?R) ?V" by simp_all
  from sm have hp: "heap (snd ?R) = h @ map Dict (results ?V) @ [List ?l]"
    and len: "length (results ?V) = ?m"
    by (simp_all add: sim_def)
  have frame: "take ?n (heap (snd ?R)) = h"
    by (simp add: hp)
  have cbl: "list_at (heap (snd ?R)) content_blocks = list_at h content_blocks"
    using well_formedD(1) [OF wf] by (simp add: hp list_at_old)
  have same: "input_blocks (heap (snd ?R)) content_blocks = input_blocks h content_blocks"
    unfolding input_blocks_def cbl
    using well_formedD(2) [OF wf] by (simp add: hp dict_at_old)
  have resl: "list_at (heap (snd ?R)) (fst ?R) = ?l"
    using list_at_res [of h "results ?V" ?l] len by (simp add: hp ref)
  have new: "list_all (\<lambda>a. ?n \<le> a) (list_at (heap (snd ?R)) (fst ?R))"
    unfolding resl by (simp add: list_all_iff)
  have den: "input_blocks (heap (snd ?R)) (fst ?R) = results ?V"
  proof -
    have "input_blocks (heap (snd ?R)) (fst ?R) = map (dict_at (heap (snd ?R))) ?l"
      by (simp add: input_blocks_def resl)
    also have "\<dots> = results ?V"
      using dicts_of_new [of h "results ?V" "[List ?l]"] len by (simp add: hp)
    finally show ?thesis .
  qed
  have sz: "map b_size (results ?V) = map b_size (input_blocks h content_blocks)"
    by (simp add: translate_content_def Let_def run_batches_size results_run_init)
  from frame same ref new den sz show ?thesis by simp
qed

theorem translate_content_frame_witness:
  "well_formed caller_store 2 \<and>
   take (length caller_store)
     (heap (snd (htranslate_content uppercase_adapter 2 (ascii ''auto'') (ascii ''id'') caller_store ()))) =
     caller_store \<and>
   input_blocks
     (heap (snd (htranslate_content uppercase_adapter 2 (ascii ''auto'') (ascii ''id'') caller_store ())))
     (fst (htranslate_content uppercase_adapter 2 (ascii ''auto'') (ascii ''id'') caller_store ())) =
     [\<lparr>b_text = ascii ''HELLO'', b_size = 24\<rparr>, \<lparr>b_text = ascii ''WORLD'', b_size = 12\<rparr>,
      \<lparr>b_text = ascii ''HELLO'', b_size = 24\<rparr>]"
proof -
  have wf: "well_formed caller_store 2"
    by (simp add: well_formed_def caller_store_def)
  have ib: "input_blocks caller_store 2 =
     [\<lparr>b_text = ascii ''Hello'', b_size = 24\<rparr>, \<lparr>b_text = ascii ''world'', b_size = 12\<rparr>,
      \<lparr>b_text = ascii ''Hello'', b_size = 24\<rparr>]"
    by (simp add: input_blocks_def list_at_def dict_at_def caller_store_def)
  have v: "results (translate_content uppercase_adapter (input_blocks caller_store 2)
              (ascii ''auto'') (ascii ''id'') ()) =
     [\<lparr>b_text = ascii ''HELLO'', b_size = 24\<rparr>, \<lparr>b_text = ascii ''WORLD'', b_size = 12\<rparr>,
      \<lparr>b_text = ascii ''HELLO'', b_size = 24\<rparr>]"
    unfolding ib by (simp add: eval_defs)
  from translate_content_frame [OF wf, of uppercase_adapter "ascii ''auto''" "ascii ''id''" "()"] wf v
  show ?thesis by simp
qed

end
